theory Spec2Isabelle
  imports Main "HOL-Library.Word"
begin

unbundle bit_operations_syntax

section \<open>JavaScript strings and byte buffers\<close>

text \<open>
  A JavaScript string is a sequence of 16-bit code units; a \<open>Buffer\<close> is a sequence of
  bytes. String literals of the source are written \<open>js ''...''\<close>.
\<close>

type_synonym jschar = "16 word"
type_synonym jsstring = "jschar list"
type_synonym byte = "8 word"

definition js :: "string \<Rightarrow> jsstring" where
  "js s = map (\<lambda>c. of_nat (of_char c)) s"

definition is_high :: "jschar \<Rightarrow> bool" where
  "is_high c \<longleftrightarrow> 0xD800 \<le> c \<and> c \<le> 0xDBFF"

definition is_low :: "jschar \<Rightarrow> bool" where
  "is_low c \<longleftrightarrow> 0xDC00 \<le> c \<and> c \<le> 0xDFFF"

subsection \<open>\<open>Buffer.from(str)\<close>: UTF-8 encoding\<close>

text \<open>
  \<open>Buffer.from(str)\<close> encodes as UTF-8. A surrogate pair is one code point of four
  bytes; a surrogate without its partner is written as U+FFFD (EF BF BD).
\<close>

definition utf8_cp :: "nat \<Rightarrow> byte list" where
  "utf8_cp n =
    (if n < 0x80 then [of_nat n]
     else if n < 0x800 then [of_nat (0xC0 + n div 64), of_nat (0x80 + n mod 64)]
     else if n < 0x10000 then
       [of_nat (0xE0 + n div 4096), of_nat (0x80 + n div 64 mod 64), of_nat (0x80 + n mod 64)]
     else [of_nat (0xF0 + n div 262144), of_nat (0x80 + n div 4096 mod 64),
           of_nat (0x80 + n div 64 mod 64), of_nat (0x80 + n mod 64)])"

definition pair_cp :: "jschar \<Rightarrow> jschar \<Rightarrow> nat" where
  "pair_cp c d = 0x10000 + (unat c - 0xD800) * 1024 + (unat d - 0xDC00)"

fun utf8_encode :: "jsstring \<Rightarrow> byte list" where
  "utf8_encode [] = []"
| "utf8_encode [c] = (if is_high c \<or> is_low c then [0xEF, 0xBF, 0xBD] else utf8_cp (unat c))"
| "utf8_encode (c # d # r) =
    (if is_high c \<and> is_low d then utf8_cp (pair_cp c d) @ utf8_encode r
     else if is_high c \<or> is_low c then [0xEF, 0xBF, 0xBD] @ utf8_encode (d # r)
     else utf8_cp (unat c) @ utf8_encode (d # r))"

subsection \<open>\<open>buf.toString()\<close>: UTF-8 decoding\<close>

text \<open>
  \<open>buf.toString()\<close> decodes UTF-8 and never fails: every maximal ill-formed prefix of a
  sequence becomes one U+FFFD. Each step returns the code units it produced and how
  many bytes it used after the lead byte.
\<close>

definition is_cont :: "byte \<Rightarrow> bool" where
  "is_cont b \<longleftrightarrow> 0x80 \<le> b \<and> b \<le> 0xBF"

definition cp_units :: "nat \<Rightarrow> jsstring" where
  "cp_units n =
    (if n < 0x10000 then [of_nat n]
     else [of_nat (0xD800 + (n - 0x10000) div 1024), of_nat (0xDC00 + (n - 0x10000) mod 1024)])"

definition utf8_seq2 :: "byte \<Rightarrow> byte list \<Rightarrow> jsstring \<times> nat" where
  "utf8_seq2 b bs =
     (case bs of
        [] \<Rightarrow> ([0xFFFD], 0)
      | c # r \<Rightarrow>
          if is_cont c then ([of_nat ((unat b - 0xC0) * 64 + (unat c - 0x80))], 1)
          else ([0xFFFD], 0))"

definition second3 :: "byte \<Rightarrow> byte \<Rightarrow> bool" where
  "second3 b c \<longleftrightarrow>
     (if b = 0xE0 then 0xA0 else 0x80) \<le> c \<and> c \<le> (if b = 0xED then 0x9F else 0xBF)"

definition utf8_seq3 :: "byte \<Rightarrow> byte list \<Rightarrow> jsstring \<times> nat" where
  "utf8_seq3 b bs =
     (case bs of
        [] \<Rightarrow> ([0xFFFD], 0)
      | c # r \<Rightarrow>
          if second3 b c
          then (case r of
                  [] \<Rightarrow> ([0xFFFD], 1)
                | d # r' \<Rightarrow>
                    if is_cont d
                    then ([of_nat ((unat b - 0xE0) * 4096 + (unat c - 0x80) * 64
                                   + (unat d - 0x80))], 2)
                    else ([0xFFFD], 1))
          else ([0xFFFD], 0))"

definition second4 :: "byte \<Rightarrow> byte \<Rightarrow> bool" where
  "second4 b c \<longleftrightarrow>
     (if b = 0xF0 then 0x90 else 0x80) \<le> c \<and> c \<le> (if b = 0xF4 then 0x8F else 0xBF)"

definition utf8_seq4 :: "byte \<Rightarrow> byte list \<Rightarrow> jsstring \<times> nat" where
  "utf8_seq4 b bs =
     (case bs of
        [] \<Rightarrow> ([0xFFFD], 0)
      | c # r \<Rightarrow>
          if second4 b c
          then (case r of
                  [] \<Rightarrow> ([0xFFFD], 1)
                | d # r' \<Rightarrow>
                    if is_cont d
                    then (case r' of
                            [] \<Rightarrow> ([0xFFFD], 2)
                          | e # r'' \<Rightarrow>
                              if is_cont e
                              then (cp_units ((unat b - 0xF0) * 262144 + (unat c - 0x80) * 4096
                                              + (unat d - 0x80) * 64 + (unat e - 0x80)), 3)
                              else ([0xFFFD], 2))
                    else ([0xFFFD], 1))
          else ([0xFFFD], 0))"

definition utf8_step :: "byte \<Rightarrow> byte list \<Rightarrow> jsstring \<times> nat" where
  "utf8_step b bs =
     (if b < 0x80 then ([of_nat (unat b)], 0)
      else if 0xC2 \<le> b \<and> b \<le> 0xDF then utf8_seq2 b bs
      else if 0xE0 \<le> b \<and> b \<le> 0xEF then utf8_seq3 b bs
      else if 0xF0 \<le> b \<and> b \<le> 0xF4 then utf8_seq4 b bs
      else ([0xFFFD], 0))"

function utf8_decode :: "byte list \<Rightarrow> jsstring" where
  "utf8_decode [] = []"
| "utf8_decode (b # bs) = fst (utf8_step b bs) @ utf8_decode (drop (snd (utf8_step b bs)) bs)"
  by pat_completeness auto
termination
  by (relation "measure length") auto

subsection \<open>\<open>buf.toString("base64")\<close> and \<open>Buffer.from(str, "base64")\<close>\<close>

definition b64_alphabet :: jsstring where
  "b64_alphabet = js ''ABCDEFGHIJKLMNOPQRSTUVWXYZabcdefghijklmnopqrstuvwxyz0123456789+/''"

definition b64_char :: "nat \<Rightarrow> jschar" where
  "b64_char n = b64_alphabet ! n"

definition b64_pad :: jschar where
  "b64_pad = 0x3D"

text \<open>Encoding: three bytes give four characters; the last group is padded with \<open>=\<close>.\<close>

fun b64_encode :: "byte list \<Rightarrow> jsstring" where
  "b64_encode [] = []"
| "b64_encode [a] =
     [b64_char (unat a div 4), b64_char (unat a mod 4 * 16), b64_pad, b64_pad]"
| "b64_encode [a, b] =
     [b64_char (unat a div 4), b64_char (unat a mod 4 * 16 + unat b div 16),
      b64_char (unat b mod 16 * 4), b64_pad]"
| "b64_encode (a # b # c # r) =
     [b64_char (unat a div 4), b64_char (unat a mod 4 * 16 + unat b div 16),
      b64_char (unat b mod 16 * 4 + unat c div 64), b64_char (unat c mod 64)]
     @ b64_encode r"

text \<open>
  Decoding is lenient and never fails. The decoder reads one byte per character, the low
  eight bits of its code unit, so that \<open>U+0165\<close> counts as \<open>e\<close>. It accepts the standard and
  the URL-safe alphabet, skips every character outside them, and stops at the first
  character whose byte is \<open>=\<close>. Two leftover characters give one byte, three give two, one
  gives none.
\<close>

definition low_byte :: "jschar \<Rightarrow> nat" where
  "low_byte c = unat c mod 256"

definition unbase64 :: "jschar \<Rightarrow> nat option" where
  "unbase64 c =
     (let b = low_byte c
      in if 0x41 \<le> b \<and> b \<le> 0x5A then Some (b - 0x41)
         else if 0x61 \<le> b \<and> b \<le> 0x7A then Some (b - 0x61 + 26)
         else if 0x30 \<le> b \<and> b \<le> 0x39 then Some (b - 0x30 + 52)
         else if b = 0x2B \<or> b = 0x2D then Some 62
         else if b = 0x2F \<or> b = 0x5F then Some 63
         else None)"

fun b64_sextets :: "jsstring \<Rightarrow> nat list" where
  "b64_sextets [] = []"
| "b64_sextets (c # r) =
     (if low_byte c = 0x3D then []
      else (case unbase64 c of None \<Rightarrow> b64_sextets r | Some n \<Rightarrow> n # b64_sextets r))"

fun b64_bytes :: "nat list \<Rightarrow> byte list" where
  "b64_bytes (a # b # c # d # r) =
     [of_nat (a * 4 + b div 16), of_nat (b mod 16 * 16 + c div 4), of_nat (c mod 4 * 64 + d)]
     @ b64_bytes r"
| "b64_bytes [a, b, c] = [of_nat (a * 4 + b div 16), of_nat (b mod 16 * 16 + c div 4)]"
| "b64_bytes [a, b] = [of_nat (a * 4 + b div 16)]"
| "b64_bytes _ = []"

definition b64_decode :: "jsstring \<Rightarrow> byte list" where
  "b64_decode s = b64_bytes (b64_sextets s)"

subsection \<open>\<open>str.split(sep)\<close> with a one-character separator\<close>

text \<open>The result always has at least one part; the empty string gives one empty part.\<close>

fun split :: "jschar \<Rightarrow> jsstring \<Rightarrow> jsstring list" where
  "split sep [] = [[]]"
| "split sep (c # r) =
     (if c = sep then [] # split sep r
      else (case split sep r of [] \<Rightarrow> [[c]] | p # ps \<Rightarrow> (c # p) # ps))"

section \<open>JavaScript values and JSON\<close>

text \<open>
  The values that \<open>JSON.parse\<close> returns and \<open>JSON.stringify\<close> accepts,
  \<open>undefined\<close>, and the built-in functions, known by their names. An object is the list
  of its own properties in enumeration order.
  A number is kept as the lexeme it was read from: its floating-point value is not
  computed, and the program never computes with numbers.
\<close>

datatype jsval =
    Undefined
  | Null
  | Bool bool
  | Num jsstring
  | Str jsstring
  | Arr "jsval list"
  | Obj "(jsstring \<times> jsval) list"
  | Builtin jsstring

subsection \<open>\<open>JSON.stringify(value, null, gap)\<close>\<close>

text \<open>
  Strings are quoted with the short escapes, \<open>\u00xx\<close> for the other control
  characters and \<open>\udxxx\<close> for a surrogate without its partner (well-formed
  \<open>JSON.stringify\<close>).
\<close>

definition hex_digit :: "nat \<Rightarrow> jschar" where
  "hex_digit n = js ''0123456789abcdef'' ! n"

definition unicode_escape :: "jschar \<Rightarrow> jsstring" where
  "unicode_escape c =
     [0x5C, 0x75, hex_digit (unat c div 4096), hex_digit (unat c div 256 mod 16),
                  hex_digit (unat c div 16 mod 16), hex_digit (unat c mod 16)]"

fun quote_chars :: "jsstring \<Rightarrow> jsstring" where
  "quote_chars [] = []"
| "quote_chars (c # r) =
     (if c = 0x08 then [0x5C, 0x62] @ quote_chars r
      else if c = 0x09 then [0x5C, 0x74] @ quote_chars r
      else if c = 0x0A then [0x5C, 0x6E] @ quote_chars r
      else if c = 0x0C then [0x5C, 0x66] @ quote_chars r
      else if c = 0x0D then [0x5C, 0x72] @ quote_chars r
      else if c = 0x22 then [0x5C, 0x22] @ quote_chars r
      else if c = 0x5C then [0x5C, 0x5C] @ quote_chars r
      else if c < 0x20 then unicode_escape c @ quote_chars r
      else if is_high c then
        (case r of
           [] \<Rightarrow> unicode_escape c
         | d # r' \<Rightarrow> if is_low d then c # d # quote_chars r'
                     else unicode_escape c @ quote_chars r)
      else if is_low c then unicode_escape c @ quote_chars r
      else c # quote_chars r)"

definition quote :: "jsstring \<Rightarrow> jsstring" where
  "quote s = [0x22] @ quote_chars s @ [0x22]"

text \<open>
  \<open>serialize gap ind v\<close> is the text of \<open>v\<close> at indentation \<open>ind\<close>, or
  \<open>None\<close> where \<open>JSON.stringify\<close> gives \<open>undefined\<close>, as it does for \<open>undefined\<close>
  and for a function. Such an array element is written \<open>null\<close>; such a property is
  left out.
\<close>

fun join :: "jsstring \<Rightarrow> jsstring list \<Rightarrow> jsstring" where
  "join sep [] = []"
| "join sep [x] = x"
| "join sep (x # y # r) = x @ sep @ join sep (y # r)"

fun serialize :: "jsstring \<Rightarrow> jsstring \<Rightarrow> jsval \<Rightarrow> jsstring option" where
  "serialize gap ind Undefined = None"
| "serialize gap ind (Builtin f) = None"
| "serialize gap ind Null = Some (js ''null'')"
| "serialize gap ind (Bool b) = Some (if b then js ''true'' else js ''false'')"
| "serialize gap ind (Num n) = Some n"
| "serialize gap ind (Str s) = Some (quote s)"
| "serialize gap ind (Arr vs) =
     (let ind' = ind @ gap;
          partial = map (\<lambda>v. case serialize gap ind' v of None \<Rightarrow> js ''null'' | Some t \<Rightarrow> t) vs
      in Some (if partial = [] then js ''[]''
               else if gap = [] then js ''['' @ join (js '','') partial @ js '']''
               else js ''['' @ [0x0A] @ ind' @ join (js '','' @ [0x0A] @ ind') partial
                    @ [0x0A] @ ind @ js '']''))"
| "serialize gap ind (Obj kvs) =
     (let ind' = ind @ gap;
          partial = concat (map (\<lambda>kv. case serialize gap ind' (snd kv) of
                                          None \<Rightarrow> []
                                        | Some t \<Rightarrow>
                                            [quote (fst kv) @ js '':''
                                             @ (if gap = [] then [] else js '' '') @ t]) kvs)
      in Some (if partial = [] then js ''{}''
               else if gap = [] then js ''{'' @ join (js '','') partial @ js ''}''
               else js ''{'' @ [0x0A] @ ind' @ join (js '','' @ [0x0A] @ ind') partial
                    @ [0x0A] @ ind @ js ''}''))"


definition JSON_stringify :: "jsval \<Rightarrow> jsstring option" where
  "JSON_stringify v = serialize [] [] v"

definition JSON_stringify2 :: "jsval \<Rightarrow> jsstring option" where
  "JSON_stringify2 v = serialize (js ''  '') [] v"

subsection \<open>\<open>JSON.parse(text)\<close>\<close>

datatype exn = SyntaxError | TypeError | URIError | SystemError

definition is_ws :: "jschar \<Rightarrow> bool" where
  "is_ws c \<longleftrightarrow> c = 0x20 \<or> c = 0x09 \<or> c = 0x0A \<or> c = 0x0D"

definition skip_ws :: "jsstring \<Rightarrow> jsstring" where
  "skip_ws s = dropWhile is_ws s"

definition hex_val :: "jschar \<Rightarrow> nat option" where
  "hex_val c =
     (if 0x30 \<le> c \<and> c \<le> 0x39 then Some (unat c - 0x30)
      else if 0x41 \<le> c \<and> c \<le> 0x46 then Some (unat c - 0x41 + 10)
      else if 0x61 \<le> c \<and> c \<le> 0x66 then Some (unat c - 0x61 + 10)
      else None)"

definition hex4 :: "jschar \<Rightarrow> jschar \<Rightarrow> jschar \<Rightarrow> jschar \<Rightarrow> jschar option" where
  "hex4 a b c d =
     (case (hex_val a, hex_val b, hex_val c, hex_val d) of
        (Some x, Some y, Some z, Some w) \<Rightarrow> Some (of_nat (x * 4096 + y * 256 + z * 16 + w))
      | _ \<Rightarrow> None)"

definition unescape :: "jschar \<Rightarrow> jschar option" where
  "unescape e =
     (if e = 0x22 \<or> e = 0x5C \<or> e = 0x2F then Some e
      else if e = 0x62 then Some 0x08
      else if e = 0x66 then Some 0x0C
      else if e = 0x6E then Some 0x0A
      else if e = 0x72 then Some 0x0D
      else if e = 0x74 then Some 0x09
      else None)"

definition cons_res :: "jschar \<Rightarrow> (jsstring \<times> jsstring) option \<Rightarrow> (jsstring \<times> jsstring) option" where
  "cons_res c res = (case res of None \<Rightarrow> None | Some (t, r) \<Rightarrow> Some (c # t, r))"

fun str_chars :: "jsstring \<Rightarrow> (jsstring \<times> jsstring) option" where
  "str_chars [] = None"
| "str_chars (c # r) =
     (if c = 0x22 then Some ([], r)
      else if c = 0x5C then
        (case r of
           [] \<Rightarrow> None
         | e # r' \<Rightarrow>
             if e = 0x75 then
               (case r' of
                  h1 # h2 # h3 # h4 # r'' \<Rightarrow>
                    (case hex4 h1 h2 h3 h4 of
                       None \<Rightarrow> None
                     | Some u \<Rightarrow> cons_res u (str_chars r''))
                | _ \<Rightarrow> None)
             else (case unescape e of
                     None \<Rightarrow> None
                   | Some u \<Rightarrow> cons_res u (str_chars r')))
      else if c < 0x20 then None
      else cons_res c (str_chars r))"

definition is_digit :: "jschar \<Rightarrow> bool" where
  "is_digit c \<longleftrightarrow> 0x30 \<le> c \<and> c \<le> 0x39"

text \<open>A number is \<open>-? (0 | [1-9][0-9]*) (. [0-9]+)? ([eE] [+-]? [0-9]+)?\<close>.\<close>

definition num_int :: "jsstring \<Rightarrow> (jsstring \<times> jsstring) option" where
  "num_int s =
     (case s of
        [] \<Rightarrow> None
      | c # r \<Rightarrow>
          if c = 0x30 then Some ([c], r)
          else if is_digit c then Some (c # takeWhile is_digit r, dropWhile is_digit r)
          else None)"

definition num_frac :: "jsstring \<Rightarrow> (jsstring \<times> jsstring) option" where
  "num_frac s =
     (case s of
        c # d # r \<Rightarrow>
          if c = 0x2E then
            (if is_digit d then Some (c # d # takeWhile is_digit r, dropWhile is_digit r)
             else None)
          else Some ([], s)
      | [c] \<Rightarrow> if c = 0x2E then None else Some ([], s)
      | [] \<Rightarrow> Some ([], s))"

definition num_digits1 :: "jsstring \<Rightarrow> (jsstring \<times> jsstring) option" where
  "num_digits1 s =
     (case s of
        [] \<Rightarrow> None
      | d # r \<Rightarrow> if is_digit d then Some (d # takeWhile is_digit r, dropWhile is_digit r)
                 else None)"

definition num_exp :: "jsstring \<Rightarrow> (jsstring \<times> jsstring) option" where
  "num_exp s =
     (case s of
        [] \<Rightarrow> Some ([], s)
      | c # r \<Rightarrow>
          if c = 0x65 \<or> c = 0x45 then
            (case r of
               [] \<Rightarrow> None
             | g # r' \<Rightarrow>
                 if g = 0x2B \<or> g = 0x2D
                 then (case num_digits1 r' of None \<Rightarrow> None
                       | Some (ds, rest) \<Rightarrow> Some (c # g # ds, rest))
                 else (case num_digits1 r of None \<Rightarrow> None
                       | Some (ds, rest) \<Rightarrow> Some (c # ds, rest)))
          else Some ([], s))"

definition num_lexeme :: "jsstring \<Rightarrow> (jsstring \<times> jsstring) option" where
  "num_lexeme s =
     (let (sign, s0) = (case s of c # r \<Rightarrow> if c = 0x2D then ([c], r) else ([], s) | [] \<Rightarrow> ([], s))
      in case num_int s0 of
           None \<Rightarrow> None
         | Some (i, s1) \<Rightarrow>
             (case num_frac s1 of
                None \<Rightarrow> None
              | Some (f, s2) \<Rightarrow>
                  (case num_exp s2 of
                     None \<Rightarrow> None
                   | Some (e, s3) \<Rightarrow> Some (sign @ i @ f @ e, s3))))"

definition strip_prefix :: "jsstring \<Rightarrow> jsstring \<Rightarrow> jsstring option" where
  "strip_prefix p s = (if take (length p) s = p then Some (drop (length p) s) else None)"

definition parse_scalar :: "jsstring \<Rightarrow> (jsval \<times> jsstring) option" where
  "parse_scalar s =
     (case strip_prefix (js ''true'') s of Some r \<Rightarrow> Some (Bool True, r) | None \<Rightarrow>
      (case strip_prefix (js ''false'') s of Some r \<Rightarrow> Some (Bool False, r) | None \<Rightarrow>
       (case strip_prefix (js ''null'') s of Some r \<Rightarrow> Some (Null, r) | None \<Rightarrow>
        (case num_lexeme s of Some (n, r) \<Rightarrow> Some (Num n, r) | None \<Rightarrow> None))))"

text \<open>
  Defining a property: a key that is already there keeps its place and takes the new
  value. A new key that is an array index (a canonical decimal below \<open>2^32 - 1\<close>)
  goes among the index keys in ascending order, which come first; any other new key
  goes last.
\<close>

definition index_val :: "jsstring \<Rightarrow> nat" where
  "index_val k = foldl (\<lambda>a c. a * 10 + (unat c - 0x30)) 0 k"

definition is_index :: "jsstring \<Rightarrow> bool" where
  "is_index k \<longleftrightarrow>
     k \<noteq> [] \<and> list_all is_digit k \<and> (hd k \<noteq> 0x30 \<or> length k = 1)
     \<and> index_val k < 4294967295"

fun obj_insert :: "(jsstring \<times> jsval) list \<Rightarrow> jsstring \<Rightarrow> jsval \<Rightarrow> (jsstring \<times> jsval) list" where
  "obj_insert [] k v = [(k, v)]"
| "obj_insert ((k', v') # kvs) k v =
     (if is_index k \<and> (\<not> is_index k' \<or> index_val k < index_val k')
      then (k, v) # (k', v') # kvs
      else (k', v') # obj_insert kvs k v)"

definition obj_put :: "(jsstring \<times> jsval) list \<Rightarrow> jsstring \<Rightarrow> jsval \<Rightarrow> (jsstring \<times> jsval) list" where
  "obj_put kvs k v =
     (if k \<in> fst ` set kvs then map (\<lambda>kv. if fst kv = k then (k, v) else kv) kvs
      else obj_insert kvs k v)"

text \<open>
  The parser follows the JSON grammar. Each function returns the value read and the
  rest of the text. The tests on lengths in \<open>parse_elements\<close> and \<open>parse_members\<close>
  are there for the termination proof only: reading a value always uses up at least
  one character.
\<close>

function parse_value :: "jsstring \<Rightarrow> (jsval \<times> jsstring) option"
  and parse_elements :: "jsval list \<Rightarrow> jsstring \<Rightarrow> (jsval \<times> jsstring) option"
  and parse_members :: "(jsstring \<times> jsval) list \<Rightarrow> jsstring \<Rightarrow> (jsval \<times> jsstring) option"
where
  "parse_value s =
     (case skip_ws s of
        [] \<Rightarrow> None
      | c # r \<Rightarrow>
          if c = 0x7B then
            (case skip_ws r of
               [] \<Rightarrow> None
             | d # r' \<Rightarrow> if d = 0x7D then Some (Obj [], r') else parse_members [] (d # r'))
          else if c = 0x5B then
            (case skip_ws r of
               [] \<Rightarrow> None
             | d # r' \<Rightarrow> if d = 0x5D then Some (Arr [], r') else parse_elements [] (d # r'))
          else if c = 0x22 then
            (case str_chars r of None \<Rightarrow> None | Some (t, r') \<Rightarrow> Some (Str t, r'))
          else parse_scalar (c # r))"
| "parse_elements acc s =
     (case parse_value s of
        None \<Rightarrow> None
      | Some (v, r) \<Rightarrow>
          (case skip_ws r of
             [] \<Rightarrow> None
           | d # r' \<Rightarrow>
               if d = 0x2C then
                 (if length r' < length s then parse_elements (acc @ [v]) r' else None)
               else if d = 0x5D then Some (Arr (acc @ [v]), r')
               else None))"
| "parse_members acc s =
     (case skip_ws s of
        [] \<Rightarrow> None
      | c # r \<Rightarrow>
          if c = 0x22 then
            (case str_chars r of
               None \<Rightarrow> None
             | Some (k, r1) \<Rightarrow>
                 (case skip_ws r1 of
                    [] \<Rightarrow> None
                  | d # r2 \<Rightarrow>
                      if d = 0x3A \<and> length r2 < length s then
                        (case parse_value r2 of
                           None \<Rightarrow> None
                         | Some (v, r3) \<Rightarrow>
                             (case skip_ws r3 of
                                [] \<Rightarrow> None
                              | e # r4 \<Rightarrow>
                                  if e = 0x2C then
                                    (if length r4 < length s
                                     then parse_members (obj_put acc k v) r4 else None)
                                  else if e = 0x7D then Some (Obj (obj_put acc k v), r4)
                                  else None))
                      else None))
          else None)"
  by pat_completeness auto
termination
proof -
  have len: "\<And>s c r. skip_ws s = c # r \<Longrightarrow> length r < length s"
  proof -
    fix s c r
    assume "skip_ws s = c # r"
    then show "length r < length s"
      using length_dropWhile_le [of is_ws s] by (simp add: skip_ws_def)
  qed
  show ?thesis
    by (relation "measure (\<lambda>x. case x of Inl s \<Rightarrow> 2 * length s
                                  | Inr (Inl (acc, s)) \<Rightarrow> 2 * length s + 1
                                  | Inr (Inr (acc, s)) \<Rightarrow> 2 * length s + 1)")
       (auto dest!: len)
qed

text \<open>\<open>JSON.parse\<close> reads one value and allows only white space after it.\<close>

definition JSON_parse :: "jsstring \<Rightarrow> exn + jsval" where
  "JSON_parse text =
     (case parse_value text of
        None \<Rightarrow> Inl SyntaxError
      | Some (v, r) \<Rightarrow> if skip_ws r = [] then Inr v else Inl SyntaxError)"

subsection \<open>Reading properties, truthiness and \<open>===\<close>\<close>

text \<open>
  \<open>v.k\<close>, for the keys the program reads (\<open>name\<close>, \<open>email\<close>, \<open>password\<close>, \<open>sub\<close>): reading
  a property of \<open>null\<close> or \<open>undefined\<close> throws a TypeError; a property that is not there
  reads as \<open>undefined\<close>. Of these keys only \<open>sub\<close> is built in, and only for a string,
  where it is the function \<open>String.prototype.sub\<close>.
\<close>

fun get_prop :: "jsval \<Rightarrow> jsstring \<Rightarrow> exn + jsval" where
  "get_prop Undefined k = Inl TypeError"
| "get_prop Null k = Inl TypeError"
| "get_prop (Obj kvs) k = Inr (case map_of kvs k of None \<Rightarrow> Undefined | Some v \<Rightarrow> v)"
| "get_prop (Str s) k = Inr (if k = js ''sub'' then Builtin (js ''sub'') else Undefined)"
| "get_prop v k = Inr Undefined"

text \<open>A number is falsy when it is zero, that is, when its digits before the exponent are all 0.\<close>

definition num_is_zero :: "jsstring \<Rightarrow> bool" where
  "num_is_zero n \<longleftrightarrow>
     list_all (\<lambda>c. c = 0x30 \<or> c = 0x2D \<or> c = 0x2E) (takeWhile (\<lambda>c. c \<noteq> 0x65 \<and> c \<noteq> 0x45) n)"

fun truthy :: "jsval \<Rightarrow> bool" where
  "truthy Undefined = False"
| "truthy Null = False"
| "truthy (Bool b) = b"
| "truthy (Num n) = (\<not> num_is_zero n)"
| "truthy (Str s) = (s \<noteq> [])"
| "truthy (Arr vs) = True"
| "truthy (Obj kvs) = True"
| "truthy (Builtin f) = True"

text \<open>
  \<open>a === b\<close>, for \<open>a\<close> read from the store and \<open>b\<close> taken from the request or from a
  token: two arrays or objects are then never the same object, so they are not equal. A
  built-in function is equal to itself only.
\<close>

fun strict_eq :: "jsval \<Rightarrow> jsval \<Rightarrow> bool" where
  "strict_eq (Arr vs) b = False"
| "strict_eq (Obj kvs) b = False"
| "strict_eq a b = (a = b)"

text \<open>
  \<open>users.find(p)\<close>: the first element that satisfies \<open>p\<close>, or \<open>undefined\<close>. A value
  that is not an array has no \<open>find\<close> method, and the call throws a TypeError.
\<close>

fun find_loop :: "(jsval \<Rightarrow> exn + bool) \<Rightarrow> jsval list \<Rightarrow> exn + jsval" where
  "find_loop p [] = Inr Undefined"
| "find_loop p (u # us) =
     (case p u of Inl e \<Rightarrow> Inl e | Inr b \<Rightarrow> if b then Inr u else find_loop p us)"

definition array_find :: "(jsval \<Rightarrow> exn + bool) \<Rightarrow> jsval \<Rightarrow> exn + jsval" where
  "array_find p users = (case users of Arr us \<Rightarrow> find_loop p us | _ \<Rightarrow> Inl TypeError)"

section \<open>The token codec: \<open>createToken\<close> and \<open>verifyToken\<close>\<close>

text \<open>
  Both variants define the two functions with the same text (lines 12-25 and 185-198
  of the source). \<open>Buffer.from\<close> throws a TypeError on \<open>undefined\<close>.
\<close>

definition Buffer_from :: "jsstring option \<Rightarrow> exn + byte list" where
  "Buffer_from s = (case s of None \<Rightarrow> Inl TypeError | Some t \<Rightarrow> Inr (utf8_encode t))"

definition jwt_header :: jsval where
  "jwt_header = Obj [(js ''alg'', Str (js ''none'')), (js ''typ'', Str (js ''JWT''))]"

definition createToken :: "jsval \<Rightarrow> exn + jsstring" where
  "createToken payload =
     (case Buffer_from (JSON_stringify jwt_header) of
        Inl e \<Rightarrow> Inl e
      | Inr hb \<Rightarrow>
          (case Buffer_from (JSON_stringify payload) of
             Inl e \<Rightarrow> Inl e
           | Inr pb \<Rightarrow> Inr (b64_encode hb @ js ''.'' @ b64_encode pb @ js ''.'')))"

text \<open>The body of the \<open>try\<close> block, and the function with its \<open>catch\<close>.\<close>

definition verifyToken_try :: "jsstring \<Rightarrow> exn + jsval" where
  "verifyToken_try token =
     (let parts = split 0x2E token
      in if length parts < 2 then Inr Null
         else JSON_parse (utf8_decode (b64_decode (parts ! 1))))"

definition verifyToken :: "jsstring \<Rightarrow> exn + jsval" where
  "verifyToken token = (case verifyToken_try token of Inl e \<Rightarrow> Inr Null | Inr v \<Rightarrow> Inr v)"

section \<open>The user store: \<open>readUsers\<close> and \<open>saveUsers\<close>\<close>

text \<open>
  The file system maps a path to the bytes of the file, if the file exists. Text is
  read and written as UTF-8. \<open>writeFileSync\<close> throws a TypeError on \<open>undefined\<close>.
\<close>

type_synonym fs = "jsstring \<rightharpoonup> byte list"

definition DB_FILE :: jsstring where
  "DB_FILE = js ''users.json''"

definition existsSync :: "fs \<Rightarrow> jsstring \<Rightarrow> bool" where
  "existsSync files path \<longleftrightarrow> files path \<noteq> None"

definition readFileSync :: "fs \<Rightarrow> jsstring \<Rightarrow> exn + jsstring" where
  "readFileSync files path =
     (case files path of None \<Rightarrow> Inl SystemError | Some bytes \<Rightarrow> Inr (utf8_decode bytes))"

definition writeFileSync :: "fs \<Rightarrow> jsstring \<Rightarrow> jsstring option \<Rightarrow> exn + fs" where
  "writeFileSync files path data =
     (case data of None \<Rightarrow> Inl TypeError | Some t \<Rightarrow> Inr (files(path \<mapsto> utf8_encode t)))"

definition readUsers :: "fs \<Rightarrow> exn + jsval" where
  "readUsers files =
     (if \<not> existsSync files DB_FILE then Inr (Arr [])
      else (case readFileSync files DB_FILE of Inl e \<Rightarrow> Inl e | Inr text \<Rightarrow> JSON_parse text))"

definition saveUsers :: "jsval \<Rightarrow> fs \<Rightarrow> exn + fs" where
  "saveUsers users files = writeFileSync files DB_FILE (JSON_stringify2 users)"

section \<open>Cookies of the raw-HTTP variant: \<open>parseCookies\<close>\<close>

subsection \<open>\<open>decodeURIComponent\<close>\<close>

text \<open>
  A \<open>%\<close> must be followed by two hexadecimal digits. An escaped byte below 0x80 is a
  character; a larger one starts a UTF-8 sequence whose other bytes must be escaped
  too. Anything else throws a URIError.
\<close>

datatype uri_item = Lit jschar | Pct byte

definition cons_item :: "uri_item \<Rightarrow> exn + uri_item list \<Rightarrow> exn + uri_item list" where
  "cons_item x res = (case res of Inl e \<Rightarrow> Inl e | Inr xs \<Rightarrow> Inr (x # xs))"

fun uri_items :: "jsstring \<Rightarrow> exn + uri_item list" where
  "uri_items [] = Inr []"
| "uri_items (c # r) =
     (if c = 0x25 then
        (case r of
           h1 # h2 # r' \<Rightarrow>
             (case hex_val h1 of
                None \<Rightarrow> Inl URIError
              | Some a \<Rightarrow>
                  (case hex_val h2 of
                     None \<Rightarrow> Inl URIError
                   | Some b \<Rightarrow> cons_item (Pct (of_nat (a * 16 + b))) (uri_items r')))
         | _ \<Rightarrow> Inl URIError)
      else cons_item (Lit c) (uri_items r))"

definition app_units :: "jsstring \<Rightarrow> exn + jsstring \<Rightarrow> exn + jsstring" where
  "app_units u res = (case res of Inl e \<Rightarrow> Inl e | Inr s \<Rightarrow> Inr (u @ s))"

text \<open>
  \<open>utf8_step b cs\<close> uses all of \<open>cs\<close> exactly when \<open>b # cs\<close> is one well-formed
  UTF-8 sequence.
\<close>

definition uri_seq :: "byte \<Rightarrow> byte list \<Rightarrow> exn + jsstring \<Rightarrow> exn + jsstring" where
  "uri_seq b cs res =
     (if snd (utf8_step b cs) = length cs then app_units (fst (utf8_step b cs)) res
      else Inl URIError)"

fun uri_decode :: "uri_item list \<Rightarrow> exn + jsstring" where
  "uri_decode [] = Inr []"
| "uri_decode (Lit c # r) = app_units [c] (uri_decode r)"
| "uri_decode (Pct b # r) =
     (if b < 0x80 then app_units [of_nat (unat b)] (uri_decode r)
      else if 0xC0 \<le> b \<and> b \<le> 0xDF then
        (case r of
           Pct c # r' \<Rightarrow> uri_seq b [c] (uri_decode r')
         | _ \<Rightarrow> Inl URIError)
      else if 0xE0 \<le> b \<and> b \<le> 0xEF then
        (case r of
           Pct c # Pct d # r' \<Rightarrow> uri_seq b [c, d] (uri_decode r')
         | _ \<Rightarrow> Inl URIError)
      else if 0xF0 \<le> b \<and> b \<le> 0xF7 then
        (case r of
           Pct c # Pct d # Pct e # r' \<Rightarrow> uri_seq b [c, d, e] (uri_decode r')
         | _ \<Rightarrow> Inl URIError)
      else Inl URIError)"

text \<open>The argument is converted to a string first: \<open>undefined\<close> becomes \<open>"undefined"\<close>.\<close>

definition decodeURIComponent :: "jsstring option \<Rightarrow> exn + jsstring" where
  "decodeURIComponent s =
     (case uri_items (case s of None \<Rightarrow> js ''undefined'' | Some t \<Rightarrow> t) of
        Inl e \<Rightarrow> Inl e
      | Inr items \<Rightarrow> uri_decode items)"

subsection \<open>\<open>str.trim()\<close>\<close>

definition is_js_space :: "jschar \<Rightarrow> bool" where
  "is_js_space c \<longleftrightarrow>
     (0x09 \<le> c \<and> c \<le> 0x0D) \<or> c = 0x20 \<or> c = 0xA0 \<or> c = 0x1680
     \<or> (0x2000 \<le> c \<and> c \<le> 0x200A) \<or> c = 0x2028 \<or> c = 0x2029 \<or> c = 0x202F
     \<or> c = 0x205F \<or> c = 0x3000 \<or> c = 0xFEFF"

definition trim :: "jsstring \<Rightarrow> jsstring" where
  "trim s = rev (dropWhile is_js_space (rev (dropWhile is_js_space s)))"

subsection \<open>\<open>parseCookies\<close> (lines 140-149)\<close>

text \<open>
  The header is cut at every \<open>;\<close> and each piece at every \<open>=\<close>. The name is the
  first part, trimmed; the value is the second part, decoded: what follows a second
  \<open>=\<close> is dropped, and a piece without \<open>=\<close> has the value \<open>"undefined"\<close>. A later
  cookie of the same name replaces the earlier one.
\<close>

definition nth_opt :: "'a list \<Rightarrow> nat \<Rightarrow> 'a option" where
  "nth_opt xs i = (if i < length xs then Some (xs ! i) else None)"

fun cookie_loop :: "jsstring list \<Rightarrow> (jsstring \<rightharpoonup> jsstring) \<Rightarrow> exn + (jsstring \<rightharpoonup> jsstring)" where
  "cookie_loop [] list = Inr list"
| "cookie_loop (cookie # rest) list =
     (let parts = split 0x3D cookie
      in case decodeURIComponent (nth_opt parts 1) of
           Inl e \<Rightarrow> Inl e
         | Inr v \<Rightarrow> cookie_loop rest (list(trim (parts ! 0) \<mapsto> v)))"

definition parseCookies :: "jsstring option \<Rightarrow> exn + (jsstring \<rightharpoonup> jsstring)" where
  "parseCookies cookieHeader =
     (case cookieHeader of
        None \<Rightarrow> Inr Map.empty
      | Some h \<Rightarrow> if h = [] then Inr Map.empty else cookie_loop (split 0x3B h) Map.empty)"

section \<open>The routes\<close>

text \<open>
  A route takes what the request carries (the parsed form, the cookies) and the file
  system, and gives the file system afterwards together with the response, or with the
  exception that it threw. The HTML of the pages is not modelled: a page is named, and
  the profile page carries the user record it shows.
\<close>

datatype page = HomePage | RegisterPage | ProfilePage jsval | NotFound

text \<open>
  \<open>token && verifyToken(token)\<close>, for the cookie \<open>token\<close>: a missing or empty cookie is
  falsy and is the result itself.
\<close>

definition token_payload :: "jsstring option \<Rightarrow> exn + jsval" where
  "token_payload token =
     (case token of
        None \<Rightarrow> Inr Undefined
      | Some t \<Rightarrow> if t = [] then Inr (Str []) else verifyToken t)"

text \<open>\<open>const { name, email, password } = body\<close>\<close>

definition form_fields :: "jsval \<Rightarrow> exn + jsval \<times> jsval \<times> jsval" where
  "form_fields body =
     (case get_prop body (js ''name'') of
        Inl e \<Rightarrow> Inl e
      | Inr name \<Rightarrow>
          (case get_prop body (js ''email'') of
             Inl e \<Rightarrow> Inl e
           | Inr email \<Rightarrow>
               (case get_prop body (js ''password'') of
                  Inl e \<Rightarrow> Inl e
                | Inr password \<Rightarrow> Inr (name, email, password))))"

text \<open>\<open>const { email, password } = body\<close>\<close>

definition login_fields :: "jsval \<Rightarrow> exn + jsval \<times> jsval" where
  "login_fields body =
     (case get_prop body (js ''email'') of
        Inl e \<Rightarrow> Inl e
      | Inr email \<Rightarrow>
          (case get_prop body (js ''password'') of
             Inl e \<Rightarrow> Inl e
           | Inr password \<Rightarrow> Inr (email, password)))"

text \<open>\<open>{ name, email, password }\<close> and \<open>{ sub: email }\<close>\<close>

definition user_record :: "jsval \<Rightarrow> jsval \<Rightarrow> jsval \<Rightarrow> jsval" where
  "user_record name email password =
     Obj [(js ''name'', name), (js ''email'', email), (js ''password'', password)]"

definition claim_of :: "jsval \<Rightarrow> jsval" where
  "claim_of email = Obj [(js ''sub'', email)]"

text \<open>\<open>u => u.email === email\<close> and \<open>u => u.email === email && u.password === password\<close>\<close>

definition same_email :: "jsval \<Rightarrow> jsval \<Rightarrow> exn + bool" where
  "same_email email u =
     (case get_prop u (js ''email'') of Inl e \<Rightarrow> Inl e | Inr x \<Rightarrow> Inr (strict_eq x email))"

definition same_credentials :: "jsval \<Rightarrow> jsval \<Rightarrow> jsval \<Rightarrow> exn + bool" where
  "same_credentials email password u =
     (case get_prop u (js ''email'') of
        Inl e \<Rightarrow> Inl e
      | Inr x \<Rightarrow>
          if strict_eq x email
          then (case get_prop u (js ''password'') of
                  Inl e \<Rightarrow> Inl e
                | Inr y \<Rightarrow> Inr (strict_eq y password))
          else Inr False)"

text \<open>\<open>users.push(x)\<close>\<close>

definition array_push :: "jsval \<Rightarrow> jsval \<Rightarrow> exn + jsval" where
  "array_push users x = (case users of Arr us \<Rightarrow> Inr (Arr (us @ [x])) | _ \<Rightarrow> Inl TypeError)"

subsection \<open>The raw-HTTP variant (lines 74-137)\<close>

record http_response =
  status :: nat
  headers :: "(jsstring \<times> jsstring) list"
  content :: "page option"

definition redirect_http :: "jsstring \<Rightarrow> http_response" where
  "redirect_http url = \<lparr>status = 302, headers = [(js ''Location'', url)], content = None\<rparr>"

definition html_http :: "page \<Rightarrow> http_response" where
  "html_http p =
     \<lparr>status = 200, headers = [(js ''Content-Type'', js ''text/html'')], content = Some p\<rparr>"

definition login_cookie_http :: "jsstring \<Rightarrow> http_response" where
  "login_cookie_http token =
     \<lparr>status = 302,
      headers = [(js ''Set-Cookie'', js ''access_token='' @ token @ js ''; HttpOnly''),
                 (js ''Location'', js ''/profile'')],
      content = None\<rparr>"

definition profile_http :: "jsstring option \<Rightarrow> fs \<Rightarrow> fs \<times> (exn + http_response)" where
  "profile_http cookieHeader files =
     (case parseCookies cookieHeader of
        Inl e \<Rightarrow> (files, Inl e)
      | Inr cookies \<Rightarrow>
          (case token_payload (cookies (js ''access_token'')) of
                Inl e \<Rightarrow> (files, Inl e)
              | Inr payload \<Rightarrow>
                  if \<not> truthy payload then (files, Inr (redirect_http (js ''/'')))
                  else (case readUsers files of
                          Inl e \<Rightarrow> (files, Inl e)
                        | Inr users \<Rightarrow>
                            (case get_prop payload (js ''sub'') of
                               Inl e \<Rightarrow> (files, Inl e)
                             | Inr sub \<Rightarrow>
                                 (case array_find (same_email sub) users of
                                    Inl e \<Rightarrow> (files, Inl e)
                                  | Inr user \<Rightarrow>
                                      if \<not> truthy user
                                      then (files, Inr (redirect_http (js ''/'')))
                                      else (files, Inr (html_http (ProfilePage user))))))))"

definition register_http :: "jsval \<Rightarrow> fs \<Rightarrow> fs \<times> (exn + http_response)" where
  "register_http body files =
     (case form_fields body of
        Inl e \<Rightarrow> (files, Inl e)
      | Inr (name, email, password) \<Rightarrow>
          (case readUsers files of
             Inl e \<Rightarrow> (files, Inl e)
           | Inr users \<Rightarrow>
               (case array_find (same_email email) users of
                  Inl e \<Rightarrow> (files, Inl e)
                | Inr found \<Rightarrow>
                    if truthy found then (files, Inr (redirect_http (js ''/register'')))
                    else (case array_push users (user_record name email password) of
                            Inl e \<Rightarrow> (files, Inl e)
                          | Inr users' \<Rightarrow>
                              (case saveUsers users' files of
                                 Inl e \<Rightarrow> (files, Inl e)
                               | Inr files' \<Rightarrow>
                                   (case createToken (claim_of email) of
                                      Inl e \<Rightarrow> (files', Inl e)
                                    | Inr token \<Rightarrow>
                                        (files', Inr (login_cookie_http token))))))))"

definition login_http :: "jsval \<Rightarrow> fs \<Rightarrow> fs \<times> (exn + http_response)" where
  "login_http body files =
     (case login_fields body of
        Inl e \<Rightarrow> (files, Inl e)
      | Inr (email, password) \<Rightarrow>
          (case readUsers files of
             Inl e \<Rightarrow> (files, Inl e)
           | Inr users \<Rightarrow>
               (case array_find (same_credentials email password) users of
                  Inl e \<Rightarrow> (files, Inl e)
                | Inr user \<Rightarrow>
                    if \<not> truthy user then (files, Inr (redirect_http (js ''/'')))
                    else (case createToken (claim_of email) of
                            Inl e \<Rightarrow> (files, Inl e)
                          | Inr token \<Rightarrow> (files, Inr (login_cookie_http token))))))"

definition logout_http :: http_response where
  "logout_http =
     \<lparr>status = 302,
      headers = [(js ''Set-Cookie'', js ''access_token=; Max-Age=0''), (js ''Location'', js ''/'')],
      content = None\<rparr>"

text \<open>
  The request as the server callback sees it: the method, the URL, the \<open>Cookie\<close>
  header if there is one, and the form that \<open>parseBody\<close> hands to its callback.
\<close>

record http_request =
  req_method :: jsstring
  req_url :: jsstring
  req_cookie :: "jsstring option"
  req_body :: jsval

definition server_http :: "http_request \<Rightarrow> fs \<Rightarrow> fs \<times> (exn + http_response)" where
  "server_http req files =
     (if req_method req = js ''GET'' \<and> req_url req = js ''/''
        then (files, Inr (html_http HomePage))
      else if req_method req = js ''GET'' \<and> req_url req = js ''/register''
        then (files, Inr (html_http RegisterPage))
      else if req_method req = js ''GET'' \<and> req_url req = js ''/profile''
        then profile_http (req_cookie req) files
      else if req_method req = js ''POST'' \<and> req_url req = js ''/register''
        then register_http (req_body req) files
      else if req_method req = js ''POST'' \<and> req_url req = js ''/login''
        then login_http (req_body req) files
      else if req_method req = js ''POST'' \<and> req_url req = js ''/logout''
        then (files, Inr logout_http)
      else (files, Inr \<lparr>status = 404, headers = [], content = Some NotFound\<rparr>))"

subsection \<open>The Express variant (lines 238-276)\<close>

text \<open>
  A route of the Express variant answers through the response object: the calls it
  makes, in order. \<open>req.body\<close> is the parsed form and \<open>req.cookies\<close> the cookies that
  the cookie-parser middleware read from the request.
\<close>

datatype express_call =
    Cookie jsstring jsstring bool
  | ClearCookie jsstring
  | Redirect jsstring
  | Send page

definition profile_express :: "(jsstring \<rightharpoonup> jsstring) \<Rightarrow> fs \<Rightarrow> fs \<times> (exn + express_call list)" where
  "profile_express cookies files =
     (case token_payload (cookies (js ''access_token'')) of
            Inl e \<Rightarrow> (files, Inl e)
          | Inr payload \<Rightarrow>
              if \<not> truthy payload then (files, Inr [Redirect (js ''/'')])
              else (case readUsers files of
                      Inl e \<Rightarrow> (files, Inl e)
                    | Inr users \<Rightarrow>
                        (case get_prop payload (js ''sub'') of
                           Inl e \<Rightarrow> (files, Inl e)
                         | Inr sub \<Rightarrow>
                             (case array_find (same_email sub) users of
                                Inl e \<Rightarrow> (files, Inl e)
                              | Inr user \<Rightarrow>
                                  if \<not> truthy user then (files, Inr [Redirect (js ''/'')])
                                  else (files, Inr [Send (ProfilePage user)])))))"

definition register_express :: "jsval \<Rightarrow> fs \<Rightarrow> fs \<times> (exn + express_call list)" where
  "register_express body files =
     (case form_fields body of
        Inl e \<Rightarrow> (files, Inl e)
      | Inr (name, email, password) \<Rightarrow>
          (case readUsers files of
             Inl e \<Rightarrow> (files, Inl e)
           | Inr users \<Rightarrow>
               (case array_find (same_email email) users of
                  Inl e \<Rightarrow> (files, Inl e)
                | Inr found \<Rightarrow>
                    if truthy found then (files, Inr [Redirect (js ''/register'')])
                    else (case array_push users (user_record name email password) of
                            Inl e \<Rightarrow> (files, Inl e)
                          | Inr users' \<Rightarrow>
                              (case saveUsers users' files of
                                 Inl e \<Rightarrow> (files, Inl e)
                               | Inr files' \<Rightarrow>
                                   (case createToken (claim_of email) of
                                      Inl e \<Rightarrow> (files', Inl e)
                                    | Inr token \<Rightarrow>
                                        (files',
                                         Inr [Cookie (js ''access_token'') token True,
                                              Redirect (js ''/profile'')])))))))"

definition login_express :: "jsval \<Rightarrow> fs \<Rightarrow> fs \<times> (exn + express_call list)" where
  "login_express body files =
     (case login_fields body of
        Inl e \<Rightarrow> (files, Inl e)
      | Inr (email, password) \<Rightarrow>
          (case readUsers files of
             Inl e \<Rightarrow> (files, Inl e)
           | Inr users \<Rightarrow>
               (case array_find (same_credentials email password) users of
                  Inl e \<Rightarrow> (files, Inl e)
                | Inr user \<Rightarrow>
                    if \<not> truthy user then (files, Inr [Redirect (js ''/'')])
                    else (case createToken (claim_of email) of
                            Inl e \<Rightarrow> (files, Inl e)
                          | Inr token \<Rightarrow>
                              (files,
                               Inr [Cookie (js ''access_token'') token True,
                                    Redirect (js ''/profile'')])))))"

definition logout_express :: "express_call list" where
  "logout_express = [ClearCookie (js ''access_token''), Redirect (js ''/'')]"

text \<open>The routes that \<open>app.get\<close> and \<open>app.post\<close> register, by the request they serve.\<close>

datatype express_request =
    GetHome
  | GetRegister
  | GetProfile "jsstring \<rightharpoonup> jsstring"
  | PostRegister jsval
  | PostLogin jsval
  | PostLogout

fun app_express :: "express_request \<Rightarrow> fs \<Rightarrow> fs \<times> (exn + express_call list)" where
  "app_express GetHome files = (files, Inr [Send HomePage])"
| "app_express GetRegister files = (files, Inr [Send RegisterPage])"
| "app_express (GetProfile cookies) files = profile_express cookies files"
| "app_express (PostRegister body) files = register_express body files"
| "app_express (PostLogin body) files = login_express body files"
| "app_express PostLogout files = (files, Inr logout_express)"

text \<open>
  A sequence of requests, served one after the other. A route that throws stops the
  process; the files stay as they are, and the next request is served from them.
\<close>

fun run_http :: "http_request list \<Rightarrow> fs \<Rightarrow> fs" where
  "run_http [] files = files"
| "run_http (req # reqs) files = run_http reqs (fst (server_http req files))"

fun run_express :: "express_request list \<Rightarrow> fs \<Rightarrow> fs" where
  "run_express [] files = files"
| "run_express (req # reqs) files = run_express reqs (fst (app_express req files))"

section \<open>Auxiliary notions for the proofs\<close>

text \<open>A string is well formed when every surrogate stands in a pair.\<close>

fun wf16 :: "jsstring \<Rightarrow> bool" where
  "wf16 [] = True"
| "wf16 [c] = (\<not> is_high c \<and> \<not> is_low c)"
| "wf16 (c # d # r) =
     (if is_high c then is_low d \<and> wf16 r else \<not> is_low c \<and> wf16 (d # r))"

definition plain16 :: "jschar \<Rightarrow> bool" where
  "plain16 c \<longleftrightarrow> \<not> is_high c \<and> \<not> is_low c"

definition short_escape :: "jschar \<Rightarrow> bool" where
  "short_escape c \<longleftrightarrow>
     c = 0x08 \<or> c = 0x09 \<or> c = 0x0A \<or> c = 0x0C \<or> c = 0x0D \<or> c = 0x22 \<or> c = 0x5C"

text \<open>The first segment of every token: the base64 text of the header.\<close>

definition jwt_header64 :: jsstring where
  "jwt_header64 = js ''eyJhbGciOiJub25lIiwidHlwIjoiSldUIn0=''"

text \<open>
  A stored user record: the name, the email and the password, each a string or absent.
  \<open>stored r\<close> is the record as \<open>JSON.parse\<close> returns it from the file,
  \<open>in_memory r\<close> the record as a route builds it before saving (an absent field is
  \<open>undefined\<close>), and \<open>record_text r\<close> its text in the file.
\<close>

type_synonym urec = "jsstring option \<times> jsstring option \<times> jsstring option"

definition fld :: "jsstring \<Rightarrow> jsstring option \<Rightarrow> (jsstring \<times> jsval) list" where
  "fld k v = (case v of None \<Rightarrow> [] | Some s \<Rightarrow> [(k, Str s)])"

definition stored :: "urec \<Rightarrow> jsval" where
  "stored r = (case r of (n, e, p) \<Rightarrow>
     Obj (fld (js ''name'') n @ fld (js ''email'') e @ fld (js ''password'') p))"

definition opt_val :: "jsstring option \<Rightarrow> jsval" where
  "opt_val v = (case v of None \<Rightarrow> Undefined | Some s \<Rightarrow> Str s)"

definition in_memory :: "urec \<Rightarrow> jsval" where
  "in_memory r = (case r of (n, e, p) \<Rightarrow> user_record (opt_val n) (opt_val e) (opt_val p))"

definition member_text :: "jsstring \<Rightarrow> jsstring option \<Rightarrow> jsstring list" where
  "member_text k v = (case v of None \<Rightarrow> [] | Some s \<Rightarrow> [quote k @ js '': '' @ quote s])"

definition record_text :: "urec \<Rightarrow> jsstring" where
  "record_text r = (case r of (n, e, p) \<Rightarrow>
     (let ms = member_text (js ''name'') n @ member_text (js ''email'') e
               @ member_text (js ''password'') p
      in if ms = [] then js ''{}''
         else 0x7B # 0x0A # js ''    '' @ join (0x2C # 0x0A # js ''    '') ms
              @ 0x0A # js ''  }''))"

definition array_text :: "jsstring list \<Rightarrow> jsstring" where
  "array_text ts =
     (if ts = [] then js ''[]''
      else 0x5B # 0x0A # js ''  '' @ join (0x2C # 0x0A # js ''  '') ts @ 0x0A # js '']'')"

definition writes_as :: "jsval \<Rightarrow> urec \<Rightarrow> bool" where
  "writes_as v r \<longleftrightarrow> serialize (js ''  '') (js ''  '') v = Some (record_text r)"

text \<open>The fields of a record.\<close>

definition name_of :: "urec \<Rightarrow> jsstring option" where
  "name_of r = fst r"

definition email_of :: "urec \<Rightarrow> jsstring option" where
  "email_of r = fst (snd r)"

definition password_of :: "urec \<Rightarrow> jsstring option" where
  "password_of r = snd (snd r)"

text \<open>
  The store holds the records \<open>rs\<close> when \<open>readUsers\<close> returns them; \<open>store_file rs\<close>
  is the content of the file that \<open>saveUsers\<close> writes for them. A form submits the
  record \<open>r\<close> when its three fields read as the fields of \<open>r\<close>.
\<close>

definition holds :: "fs \<Rightarrow> urec list \<Rightarrow> bool" where
  "holds files rs \<longleftrightarrow> readUsers files = Inr (Arr (map stored rs))"

definition store_file :: "urec list \<Rightarrow> byte list" where
  "store_file rs = utf8_encode (array_text (map record_text rs))"

definition submits :: "jsval \<Rightarrow> urec \<Rightarrow> bool" where
  "submits body r \<longleftrightarrow>
     form_fields body = Inr (opt_val (name_of r), opt_val (email_of r), opt_val (password_of r))"

definition form :: "jsval \<Rightarrow> bool" where
  "form body \<longleftrightarrow> (\<exists>r. submits body r)"

fun express_form :: "express_request \<Rightarrow> bool" where
  "express_form (PostRegister body) = form body"
| "express_form (PostLogin body) = form body"
| "express_form _ = True"

text \<open>
  The invariant of the store: it holds a sequence of records, and no two of them have the
  same email. Emails are compared as the source compares them, character by character.
\<close>

definition store_inv :: "fs \<Rightarrow> bool" where
  "store_inv files \<longleftrightarrow> (\<exists>rs. holds files rs \<and> distinct (map email_of rs))"

text \<open>
  The normal form that the specification recommends for an email as a key: trimmed,
  then in lower case. The source has no such function.
\<close>

definition spec_lower :: "jschar \<Rightarrow> jschar" where
  "spec_lower c = (if 0x41 \<le> c \<and> c \<le> 0x5A then c + 0x20 else c)"

definition spec_normalize :: "jsstring \<Rightarrow> jsstring" where
  "spec_normalize email = map spec_lower (trim email)"

text \<open>Example data: two users, a form with a wrong password, a store with one user.\<close>

definition ann :: urec where
  "ann = (Some (js ''Ann''), Some (js ''a@x.com''), Some (js ''p''))"

definition ann_form :: jsval where
  "ann_form = Obj [(js ''name'', Str (js ''Ann'')), (js ''email'', Str (js ''a@x.com'')),
                   (js ''password'', Str (js ''p''))]"

definition bob :: urec where
  "bob = (Some (js ''Bob''), Some (js '' A@X.com''), Some (js ''q''))"

definition bob_form :: jsval where
  "bob_form = Obj [(js ''name'', Str (js ''Bob'')), (js ''email'', Str (js '' A@X.com'')),
                   (js ''password'', Str (js ''q''))]"

definition wrong :: urec where
  "wrong = (None, Some (js ''a@x.com''), Some (js ''guess''))"

definition wrong_form :: jsval where
  "wrong_form = Obj [(js ''email'', Str (js ''a@x.com'')), (js ''password'', Str (js ''guess''))]"

definition ann_store :: fs where
  "ann_store = Map.empty(DB_FILE \<mapsto> store_file [ann])"

text \<open>The header segment without its padding.\<close>

definition jwt_header35 :: jsstring where
  "jwt_header35 = js ''eyJhbGciOiJub25lIiwidHlwIjoiSldUIn0''"

section \<open>Base64 and \<open>split\<close>\<close>

lemma b64_char_props:
  "n < 64 \<Longrightarrow> unbase64 (b64_char n) = Some n \<and> low_byte (b64_char n) \<noteq> 0x3D
     \<and> b64_char n \<noteq> 0x2E \<and> b64_char n \<noteq> 0x3B"
proof -
  have "list_all (\<lambda>n. unbase64 (b64_char n) = Some n \<and> low_byte (b64_char n) \<noteq> 0x3D
                     \<and> b64_char n \<noteq> 0x2E \<and> b64_char n \<noteq> 0x3B) [0..<64]"
    by (simp add: upt_rec unbase64_def low_byte_def b64_char_def b64_alphabet_def js_def)
  moreover assume "n < 64"
  ultimately show ?thesis
    by (simp add: list_all_iff)
qed

lemma b64_char_unbase64 [simp]: "n < 64 \<Longrightarrow> unbase64 (b64_char n) = Some n"
  and b64_char_ne_pad [simp]: "n < 64 \<Longrightarrow> low_byte (b64_char n) \<noteq> 0x3D"
  and b64_char_ne_dot [simp]: "n < 64 \<Longrightarrow> b64_char n \<noteq> 0x2E"
  and b64_char_ne_semicolon [simp]: "n < 64 \<Longrightarrow> b64_char n \<noteq> 0x3B"
  using b64_char_props [of n] by simp_all

lemma low_byte_pad [simp]: "low_byte b64_pad = 0x3D"
  by (simp add: low_byte_def b64_pad_def)

lemma unat_byte_less: "unat (x :: byte) < 256"
  using unsigned_less [of x, where 'a = nat] by simp

lemma b64_idx1: "(a::nat) < 256 \<Longrightarrow> a div 4 < 64" by simp
lemma b64_idx2: "(b::nat) < 256 \<Longrightarrow> a mod 4 * 16 + b div 16 < 64"
proof -
  assume "b < 256"
  then have "b div 16 < 16" by simp
  moreover have "a mod 4 < 4" by simp
  ultimately show ?thesis by linarith
qed
lemma b64_idx3: "(c::nat) < 256 \<Longrightarrow> b mod 16 * 4 + c div 64 < 64"
proof -
  assume "c < 256"
  then have "c div 64 < 4" by simp
  moreover have "b mod 16 < 16" by simp
  ultimately show ?thesis by linarith
qed
lemma b64_idx4: "(c::nat) mod 64 < 64" by simp
lemma b64_idx5: "(a::nat) mod 4 * 16 < 64"
proof -
  have "a mod 4 < 4" by simp
  then show ?thesis by linarith
qed
lemma b64_idx6: "(b::nat) mod 16 * 4 < 64"
proof -
  have "b mod 16 < 16" by simp
  then show ?thesis by linarith
qed

lemma b64_back1: "(b::nat) < 256 \<Longrightarrow> a div 4 * 4 + (a mod 4 * 16 + b div 16) div 16 = a"
proof -
  assume "b < 256"
  then have "b div 16 < 16" by simp
  then have "(a mod 4 * 16 + b div 16) div 16 = a mod 4" by simp
  then show ?thesis by simp
qed
lemma b64_back2:
  "(b::nat) < 256 \<Longrightarrow> (c::nat) < 256 \<Longrightarrow>
   (a mod 4 * 16 + b div 16) mod 16 * 16 + (b mod 16 * 4 + c div 64) div 4 = b"
proof -
  assume "b < 256" "c < 256"
  then have "b div 16 < 16" "c div 64 < 4" by simp_all
  then have "(a mod 4 * 16 + b div 16) mod 16 = b div 16"
    "(b mod 16 * 4 + c div 64) div 4 = b mod 16" by simp_all
  then show ?thesis by simp
qed
lemma b64_back3: "(c::nat) < 256 \<Longrightarrow> (b mod 16 * 4 + c div 64) mod 4 * 64 + c mod 64 = c"
proof -
  assume "c < 256"
  then have "c div 64 < 4" by simp
  then have "(b mod 16 * 4 + c div 64) mod 4 = c div 64" by simp
  then show ?thesis by simp
qed
lemma b64_back4: "(a::nat) div 4 * 4 + (a mod 4 * 16) div 16 = a" by simp
lemma b64_back5: "(b::nat) < 256 \<Longrightarrow> (a mod 4 * 16 + b div 16) mod 16 * 16 + (b mod 16 * 4) div 4 = b"
proof -
  assume "b < 256"
  then have "b div 16 < 16" by simp
  then have "(a mod 4 * 16 + b div 16) mod 16 = b div 16" by simp
  then show ?thesis by simp
qed

lemmas b64_arith = b64_idx1 b64_idx2 b64_idx3 b64_idx4 b64_idx5 b64_idx6
  b64_back1 b64_back2 b64_back3 b64_back4 b64_back5 unat_byte_less

lemma b64_sextets_char: "n < 64 \<Longrightarrow> b64_sextets (b64_char n # r) = n # b64_sextets r"
  by simp


lemma b64_bytes_group:
  "i0 < 64 \<Longrightarrow> i1 < 64 \<Longrightarrow> i2 < 64 \<Longrightarrow> i3 < 64 \<Longrightarrow>
   b64_bytes (b64_sextets (b64_char i0 # b64_char i1 # b64_char i2 # b64_char i3 # r)) =
   [of_nat (i0 * 4 + i1 div 16), of_nat (i1 mod 16 * 16 + i2 div 4), of_nat (i2 mod 4 * 64 + i3)]
   @ b64_bytes (b64_sextets r)"
  by simp

lemma b64_bytes_last2:
  "i0 < 64 \<Longrightarrow> i1 < 64 \<Longrightarrow> i2 < 64 \<Longrightarrow>
   b64_bytes (b64_sextets [b64_char i0, b64_char i1, b64_char i2, b64_pad]) =
   [of_nat (i0 * 4 + i1 div 16), of_nat (i1 mod 16 * 16 + i2 div 4)]"
  by simp

lemma b64_bytes_last1:
  "i0 < 64 \<Longrightarrow> i1 < 64 \<Longrightarrow>
   b64_bytes (b64_sextets [b64_char i0, b64_char i1, b64_pad, b64_pad]) =
   [of_nat (i0 * 4 + i1 div 16)]"
  by simp

lemma b64_decode_encode: "b64_decode (b64_encode bs) = bs"
proof -
  have "b64_bytes (b64_sextets (b64_encode bs)) = bs"
  proof (induction bs rule: b64_encode.induct)
    case 1
    show ?case by simp
  next
    case (2 a)
    have "b64_bytes (b64_sextets (b64_encode [a])) =
          [of_nat (unat a div 4 * 4 + (unat a mod 4 * 16) div 16)]"
      by (simp only: b64_encode.simps b64_bytes_last1 b64_arith)
    also have "\<dots> = [a]"
      by (simp only: b64_back4) simp
    finally show ?case .
  next
    case (3 a b)
    have "b64_bytes (b64_sextets (b64_encode [a, b])) =
          [of_nat (unat a div 4 * 4 + (unat a mod 4 * 16 + unat b div 16) div 16),
           of_nat ((unat a mod 4 * 16 + unat b div 16) mod 16 * 16 + (unat b mod 16 * 4) div 4)]"
      by (simp only: b64_encode.simps b64_bytes_last2 b64_arith)
    also have "\<dots> = [a, b]"
      by (simp only: b64_back1 b64_back5 unat_byte_less) simp
    finally show ?case .
  next
    case (4 a b c r)
    have "b64_bytes (b64_sextets (b64_encode (a # b # c # r))) =
          [of_nat (unat a div 4 * 4 + (unat a mod 4 * 16 + unat b div 16) div 16),
           of_nat ((unat a mod 4 * 16 + unat b div 16) mod 16 * 16
                   + (unat b mod 16 * 4 + unat c div 64) div 4),
           of_nat ((unat b mod 16 * 4 + unat c div 64) mod 4 * 64 + unat c mod 64)]
          @ b64_bytes (b64_sextets (b64_encode r))"
      by (simp only: b64_encode.simps append_Cons append_Nil b64_bytes_group b64_arith)
    also have "\<dots> = a # b # c # r"
      by (simp only: b64_back1 b64_back2 b64_back3 unat_byte_less 4) simp
    finally show ?case .
  qed
  then show ?thesis by (simp add: b64_decode_def)
qed

lemma b64_encode_no_dot: "0x2E \<notin> set (b64_encode bs)"
  by (induction bs rule: b64_encode.induct) (simp_all add: b64_arith b64_pad_def)

lemma b64_encode_no_semicolon: "0x3B \<notin> set (b64_encode bs)"
  by (induction bs rule: b64_encode.induct) (simp_all add: b64_arith b64_pad_def)

lemma split_no_sep: "sep \<notin> set x \<Longrightarrow> split sep x = [x]"
  by (induction x) auto

lemma split_append_sep: "sep \<notin> set x \<Longrightarrow> split sep (x @ sep # r) = x # split sep r"
  by (induction x) auto

section \<open>UTF-8: decoding undoes encoding\<close>

lemma unat_byte_of_nat: "k < 256 \<Longrightarrow> unat (of_nat k :: byte) = k"
  by (simp add: unat_of_nat)

lemma unat_jschar_of_nat: "k < 65536 \<Longrightarrow> unat (of_nat k :: jschar) = k"
  by (simp add: unat_of_nat)

lemma byte_eq_iff: "(x :: byte) = y \<longleftrightarrow> unat x = unat y"
  by (simp add: word_unat_eq_iff)

lemmas byte_nat = word_le_nat_alt word_less_nat_alt unat_byte_of_nat

lemma utf8_dec1:
  assumes "unat b < 128"
  shows "utf8_decode (b # bs) = of_nat (unat b) # utf8_decode bs"
  using assms by (simp add: utf8_step_def word_less_nat_alt)

lemma utf8_dec2:
  assumes "194 \<le> unat b" "unat b \<le> 223" "128 \<le> unat c" "unat c \<le> 191"
  shows "utf8_decode (b # c # bs) = of_nat ((unat b - 192) * 64 + (unat c - 128)) # utf8_decode bs"
  using assms
  by (simp add: utf8_step_def utf8_seq2_def is_cont_def word_less_nat_alt word_le_nat_alt)

lemma utf8_dec3:
  assumes "224 \<le> unat b" "unat b \<le> 239"
    "(if unat b = 224 then 160 else 128) \<le> unat c"
    "unat c \<le> (if unat b = 237 then 159 else 191)"
    "128 \<le> unat d" "unat d \<le> 191"
  shows "utf8_decode (b # c # d # bs) =
         of_nat ((unat b - 224) * 4096 + (unat c - 128) * 64 + (unat d - 128)) # utf8_decode bs"
proof -
  have s: "second3 b c"
    using assms(3,4)
    by (auto simp: second3_def word_le_nat_alt word_unat_eq_iff split: if_splits)
  show ?thesis
    using assms(1,2,5,6) s
    by (simp add: utf8_step_def utf8_seq3_def is_cont_def word_less_nat_alt word_le_nat_alt)
qed

lemma utf8_dec4:
  assumes "240 \<le> unat b" "unat b \<le> 244"
    "(if unat b = 240 then 144 else 128) \<le> unat c"
    "unat c \<le> (if unat b = 244 then 143 else 191)"
    "128 \<le> unat d" "unat d \<le> 191" "128 \<le> unat e" "unat e \<le> 191"
  shows "utf8_decode (b # c # d # e # bs) =
         cp_units ((unat b - 240) * 262144 + (unat c - 128) * 4096 + (unat d - 128) * 64
                   + (unat e - 128)) @ utf8_decode bs"
proof -
  have s: "second4 b c"
    using assms(3,4)
    by (auto simp: second4_def word_le_nat_alt word_unat_eq_iff split: if_splits)
  show ?thesis
    using assms(1,2,5,6,7,8) s
    by (simp add: utf8_step_def utf8_seq4_def is_cont_def word_less_nat_alt word_le_nat_alt)
qed


lemma utf8_decode_cp1:
  assumes "n < 0x80"
  shows "utf8_decode (utf8_cp n @ bs) = of_nat n # utf8_decode bs"
proof -
  let ?b = "of_nat n :: byte"
  have ub: "unat ?b = n" by (rule unat_byte_of_nat) (use assms in simp)
  have "utf8_decode (?b # bs) = of_nat (unat ?b) # utf8_decode bs"
    by (rule utf8_dec1) (simp only: ub, use assms in simp)
  then have d: "utf8_decode (?b # bs) = of_nat n # utf8_decode bs"
    by (simp only: ub)
  have e: "utf8_cp n = [?b]"
    using assms by (simp only: utf8_cp_def if_True)
  show ?thesis by (simp only: e append_Cons append_Nil d)
qed

lemma split64: "(n::nat) div 64 * 64 + n mod 64 = n"
  by simp

lemma split4096: "(n::nat) div 4096 * 4096 + n div 64 mod 64 * 64 + n mod 64 = n"
proof -
  have "n div 64 div 64 = n div 4096" by (simp add: div_mult2_eq)
  then have "n div 64 = n div 4096 * 64 + n div 64 mod 64"
    using div_mult_mod_eq [of "n div 64" 64] by simp
  moreover have "n = n div 64 * 64 + n mod 64" by simp
  ultimately show ?thesis by linarith
qed

lemma split262144:
  "(n::nat) div 262144 * 262144 + n div 4096 mod 64 * 4096 + n div 64 mod 64 * 64 + n mod 64 = n"
proof -
  have "n div 4096 div 64 = n div 262144" by (simp add: div_mult2_eq)
  then have "n div 4096 = n div 262144 * 64 + n div 4096 mod 64"
    using div_mult_mod_eq [of "n div 4096" 64] by simp
  moreover have "n div 4096 * 4096 + n div 64 mod 64 * 64 + n mod 64 = n" by (rule split4096)
  ultimately show ?thesis by linarith
qed

lemma utf8_decode_cp2:
  assumes "0x80 \<le> n" "n < 0x800"
  shows "utf8_decode (utf8_cp n @ bs) = of_nat n # utf8_decode bs"
proof -
  let ?b = "of_nat (0xC0 + n div 64) :: byte"
  let ?c = "of_nat (0x80 + n mod 64) :: byte"
  have ub: "unat ?b = 192 + n div 64" by (rule unat_byte_of_nat) (use assms in simp)
  have uc: "unat ?c = 128 + n mod 64" by (rule unat_byte_of_nat) simp
  have v: "(unat ?b - 192) * 64 + (unat ?c - 128) = n"
    by (simp only: ub uc) simp
  have "utf8_decode (?b # ?c # bs) =
        of_nat ((unat ?b - 192) * 64 + (unat ?c - 128)) # utf8_decode bs"
    by (rule utf8_dec2) (simp_all only: ub uc, use assms in simp_all)
  then have d: "utf8_decode (?b # ?c # bs) = of_nat n # utf8_decode bs"
    by (simp only: v)
  have e: "utf8_cp n = [?b, ?c]"
    using assms by (simp only: utf8_cp_def) simp
  show ?thesis by (simp only: e append_Cons append_Nil d)
qed


lemma utf8_lo3: "0x800 \<le> (n::nat) \<Longrightarrow> n div 4096 = 0 \<Longrightarrow> 32 \<le> n div 64 mod 64"
proof -
  assume a: "0x800 \<le> n" "n div 4096 = 0"
  then have "n < 4096" by simp
  then have "n div 64 < 64" by simp
  then have "n div 64 mod 64 = n div 64" by simp
  moreover have "32 \<le> n div 64" using a(1) by simp
  ultimately show ?thesis by simp
qed

lemma utf8_hi3: "(n::nat) < 0xD800 \<or> 0xDFFF < n \<Longrightarrow> n div 4096 = 13 \<Longrightarrow> n div 64 mod 64 \<le> 31"
proof -
  assume a: "n < 0xD800 \<or> 0xDFFF < n" "n div 4096 = 13"
  have "n div 4096 * 4096 + n div 64 mod 64 * 64 + n mod 64 = n" by (rule split4096)
  then have e: "53248 + n div 64 mod 64 * 64 + n mod 64 = n" using a(2) by simp
  have "n mod 64 < 64" "n div 64 mod 64 < 64" by simp_all
  then have "n \<le> 0xDFFF" using e by linarith
  then have "n < 0xD800" using a(1) by simp
  then show ?thesis using e by linarith
qed

lemma utf8_lo4: "0x10000 \<le> (n::nat) \<Longrightarrow> n div 262144 = 0 \<Longrightarrow> 16 \<le> n div 4096 mod 64"
proof -
  assume a: "0x10000 \<le> n" "n div 262144 = 0"
  then have "n < 262144" by simp
  then have "n div 4096 < 64" by simp
  then have "n div 4096 mod 64 = n div 4096" by simp
  moreover have "16 \<le> n div 4096" using a(1) by simp
  ultimately show ?thesis by simp
qed

lemma utf8_hi4: "(n::nat) < 0x110000 \<Longrightarrow> n div 262144 = 4 \<Longrightarrow> n div 4096 mod 64 \<le> 15"
proof -
  assume a: "n < 0x110000" "n div 262144 = 4"
  have "n div 262144 * 262144 + n div 4096 mod 64 * 4096 + n div 64 mod 64 * 64 + n mod 64 = n"
    by (rule split262144)
  then have e: "1048576 + n div 4096 mod 64 * 4096 + n div 64 mod 64 * 64 + n mod 64 = n"
    using a(2) by simp
  then show ?thesis using a(1) by linarith
qed

lemma utf8_decode_cp3:
  assumes "0x800 \<le> n" "n < 0x10000" "n < 0xD800 \<or> 0xDFFF < n"
  shows "utf8_decode (utf8_cp n @ bs) = of_nat n # utf8_decode bs"
proof -
  let ?b = "of_nat (0xE0 + n div 4096) :: byte"
  let ?c = "of_nat (0x80 + n div 64 mod 64) :: byte"
  let ?d = "of_nat (0x80 + n mod 64) :: byte"
  have ub: "unat ?b = 224 + n div 4096" by (rule unat_byte_of_nat) (use assms in simp)
  have uc: "unat ?c = 128 + n div 64 mod 64" by (rule unat_byte_of_nat) simp
  have ud: "unat ?d = 128 + n mod 64" by (rule unat_byte_of_nat) simp
  have m: "n div 64 mod 64 \<le> 63" "n mod 64 \<le> 63"
    using mod_less_divisor [of 64 "n div 64"] mod_less_divisor [of 64 n] by linarith+
  have v: "(unat ?b - 224) * 4096 + (unat ?c - 128) * 64 + (unat ?d - 128) = n"
    using split4096 [of n] by (simp only: ub uc ud) simp
  have "utf8_decode (?b # ?c # ?d # bs) =
        of_nat ((unat ?b - 224) * 4096 + (unat ?c - 128) * 64 + (unat ?d - 128)) # utf8_decode bs"
    by (rule utf8_dec3)
       (simp_all only: ub uc ud, use assms m utf8_lo3 [of n] utf8_hi3 [of n] in simp_all)
  then have d: "utf8_decode (?b # ?c # ?d # bs) = of_nat n # utf8_decode bs"
    by (simp only: v)
  have e: "utf8_cp n = [?b, ?c, ?d]"
    using assms by (simp only: utf8_cp_def) simp
  show ?thesis by (simp only: e append_Cons append_Nil d)
qed

lemma utf8_decode_cp4:
  assumes "0x10000 \<le> n" "n < 0x110000"
  shows "utf8_decode (utf8_cp n @ bs) = cp_units n @ utf8_decode bs"
proof -
  let ?b = "of_nat (0xF0 + n div 262144) :: byte"
  let ?c = "of_nat (0x80 + n div 4096 mod 64) :: byte"
  let ?d = "of_nat (0x80 + n div 64 mod 64) :: byte"
  let ?e = "of_nat (0x80 + n mod 64) :: byte"
  have ub: "unat ?b = 240 + n div 262144" by (rule unat_byte_of_nat) (use assms in simp)
  have uc: "unat ?c = 128 + n div 4096 mod 64" by (rule unat_byte_of_nat) simp
  have ud: "unat ?d = 128 + n div 64 mod 64" by (rule unat_byte_of_nat) simp
  have ue: "unat ?e = 128 + n mod 64" by (rule unat_byte_of_nat) simp
  have m: "n div 4096 mod 64 \<le> 63" "n div 64 mod 64 \<le> 63" "n mod 64 \<le> 63"
    using mod_less_divisor [of 64 "n div 4096"] mod_less_divisor [of 64 "n div 64"]
      mod_less_divisor [of 64 n] by linarith+
  have v: "(unat ?b - 240) * 262144 + (unat ?c - 128) * 4096 + (unat ?d - 128) * 64
           + (unat ?e - 128) = n"
    using split262144 [of n] by (simp only: ub uc ud ue) simp
  have "utf8_decode (?b # ?c # ?d # ?e # bs) =
        cp_units ((unat ?b - 240) * 262144 + (unat ?c - 128) * 4096 + (unat ?d - 128) * 64
                  + (unat ?e - 128)) @ utf8_decode bs"
    by (rule utf8_dec4)
       (simp_all only: ub uc ud ue, use assms m utf8_lo4 [of n] utf8_hi4 [of n] in simp_all)
  then have d: "utf8_decode (?b # ?c # ?d # ?e # bs) = cp_units n @ utf8_decode bs"
    by (simp only: v)
  have e: "utf8_cp n = [?b, ?c, ?d, ?e]"
    using assms by (simp only: utf8_cp_def) simp
  show ?thesis by (simp only: e append_Cons append_Nil d)
qed


lemma unat_jschar_less: "unat (c :: jschar) < 65536"
  using unsigned_less [of c, where 'a = nat] by simp

lemma utf8_decode_bmp:
  assumes "\<not> is_high c" "\<not> is_low c"
  shows "utf8_decode (utf8_cp (unat c) @ bs) = c # utf8_decode bs"
proof -
  let ?n = "unat c"
  have r: "?n < 0xD800 \<or> 0xDFFF < ?n"
    using assms by (auto simp: is_high_def is_low_def word_le_nat_alt)
  have "utf8_decode (utf8_cp ?n @ bs) = of_nat ?n # utf8_decode bs"
  proof (cases "?n < 0x80")
    case True
    then show ?thesis by (rule utf8_decode_cp1)
  next
    case False
    show ?thesis
    proof (cases "?n < 0x800")
      case True
      with False show ?thesis by (intro utf8_decode_cp2) simp_all
    next
      case False
      then show ?thesis using r unat_jschar_less [of c] by (intro utf8_decode_cp3) simp_all
    qed
  qed
  then show ?thesis by simp
qed

lemma pair_cp_range:
  assumes "is_high c" "is_low d"
  shows "0x10000 \<le> pair_cp c d" "pair_cp c d < 0x110000"
  using assms by (auto simp: is_high_def is_low_def word_le_nat_alt pair_cp_def)

lemma cp_units_pair:
  assumes "is_high c" "is_low d"
  shows "cp_units (pair_cp c d) = [c, d]"
proof -
  let ?h = "unat c - 0xD800" and ?l = "unat d - 0xDC00"
  have h: "0xD800 \<le> unat c" "unat c \<le> 0xDBFF" and l: "0xDC00 \<le> unat d" "unat d \<le> 0xDFFF"
    using assms by (simp_all add: is_high_def is_low_def word_le_nat_alt)
  have l': "?l < 1024" using l by simp
  have p: "pair_cp c d - 0x10000 = ?h * 1024 + ?l" by (simp add: pair_cp_def)
  have dv: "(pair_cp c d - 0x10000) div 1024 = ?h"
    unfolding p using l' by simp
  have md: "(pair_cp c d - 0x10000) mod 1024 = ?l"
    unfolding p using l' by simp
  have "cp_units (pair_cp c d) =
        [of_nat (0xD800 + (pair_cp c d - 0x10000) div 1024),
         of_nat (0xDC00 + (pair_cp c d - 0x10000) mod 1024)]"
    using pair_cp_range(1) [OF assms] by (simp only: cp_units_def) simp
  also have "\<dots> = [of_nat (unat c), of_nat (unat d)]"
    using h l by (simp only: dv md) simp
  finally show ?thesis by simp
qed

lemma utf8_decode_encode_append:
  "wf16 t \<Longrightarrow> utf8_decode (utf8_encode t @ bs) = t @ utf8_decode bs"
proof (induction t rule: wf16.induct)
  case 1
  show ?case by simp
next
  case (2 c)
  then show ?case by (simp add: utf8_decode_bmp)
next
  case (3 c d r)
  show ?case
  proof (cases "is_high c")
    case True
    with 3 have dl: "is_low d" and wr: "wf16 r" by simp_all
    have "utf8_decode (utf8_cp (pair_cp c d) @ utf8_encode r @ bs) =
          cp_units (pair_cp c d) @ utf8_decode (utf8_encode r @ bs)"
      by (rule utf8_decode_cp4) (rule pair_cp_range [OF True dl])+
    then show ?thesis
      using True dl wr 3 by (simp add: cp_units_pair)
  next
    case False
    with 3 have nl: "\<not> is_low c" and wr: "wf16 (d # r)" by simp_all
    have "utf8_decode (utf8_cp (unat c) @ utf8_encode (d # r) @ bs) =
          c # utf8_decode (utf8_encode (d # r) @ bs)"
      by (rule utf8_decode_bmp [OF False nl])
    then show ?thesis
      using False nl wr 3 by simp
  qed
qed

lemma utf8_decode_encode: "wf16 t \<Longrightarrow> utf8_decode (utf8_encode t) = t"
  using utf8_decode_encode_append [of t "[]"] by simp

lemma wf16_append: "wf16 a \<Longrightarrow> wf16 (a @ b) = wf16 b"
proof (induction a rule: wf16.induct)
  case 1
  show ?case by simp
next
  case (2 c)
  then show ?case by (cases b) simp_all
next
  case (3 c d r)
  then show ?case by (simp split: if_splits)
qed

section \<open>JSON strings: parsing undoes quoting\<close>

lemma hex_val_digit: "n < 16 \<Longrightarrow> hex_val (hex_digit n) = Some n"
proof -
  have "list_all (\<lambda>n. hex_val (hex_digit n) = Some n) [0..<16]"
    by (simp add: upt_rec hex_val_def hex_digit_def js_def)
  moreover assume "n < 16"
  ultimately show ?thesis
    by (simp add: list_all_iff)
qed

lemma split_hex:
  "(n::nat) div 4096 * 4096 + n div 256 mod 16 * 256 + n div 16 mod 16 * 16 + n mod 16 = n"
proof -
  have "n div 256 div 16 = n div 4096" "n div 16 div 16 = n div 256"
    by (simp_all add: div_mult2_eq)
  then have "n div 256 = n div 4096 * 16 + n div 256 mod 16"
    "n div 16 = n div 256 * 16 + n div 16 mod 16"
    using div_mult_mod_eq [of "n div 256" 16] div_mult_mod_eq [of "n div 16" 16] by simp_all
  moreover have "n = n div 16 * 16 + n mod 16" by simp
  ultimately show ?thesis by linarith
qed

lemma hex4_escape:
  "hex4 (hex_digit (unat c div 4096)) (hex_digit (unat c div 256 mod 16))
        (hex_digit (unat c div 16 mod 16)) (hex_digit (unat c mod 16)) = Some c"
proof -
  have "unat c div 4096 < 16" using unat_jschar_less [of c] by simp
  then have "hex4 (hex_digit (unat c div 4096)) (hex_digit (unat c div 256 mod 16))
        (hex_digit (unat c div 16 mod 16)) (hex_digit (unat c mod 16)) =
     Some (of_nat (unat c div 4096 * 4096 + unat c div 256 mod 16 * 256
                   + unat c div 16 mod 16 * 16 + unat c mod 16))"
    by (simp add: hex4_def hex_val_digit)
  then show ?thesis by (simp only: split_hex) simp
qed

lemma str_chars_escape:
  "str_chars (unicode_escape c @ r) = cons_res c (str_chars r)"
  by (simp add: unicode_escape_def hex4_escape)


lemma surrogate_not_special:
  assumes "is_high c \<or> is_low c"
  shows "c \<noteq> 0x22" "c \<noteq> 0x5C" "\<not> c < 0x20"
  using assms by (auto simp: is_high_def is_low_def word_le_nat_alt word_less_nat_alt)

lemma str_chars_plain:
  "c \<noteq> 0x22 \<Longrightarrow> c \<noteq> 0x5C \<Longrightarrow> \<not> c < 0x20 \<Longrightarrow> str_chars (c # r) = cons_res c (str_chars r)"
  by simp

lemma high_props:
  assumes "is_high c"
  shows "c \<noteq> 0x22" "c \<noteq> 0x5C" "\<not> c < 0x20" "c \<noteq> 0x08" "c \<noteq> 0x09" "c \<noteq> 0x0A"
    "c \<noteq> 0x0C" "c \<noteq> 0x0D" "\<not> is_low c"
  using assms by (auto simp: is_high_def is_low_def word_le_nat_alt word_less_nat_alt)

lemma low_props:
  assumes "is_low c"
  shows "c \<noteq> 0x22" "c \<noteq> 0x5C" "\<not> c < 0x20" "c \<noteq> 0x08" "c \<noteq> 0x09" "c \<noteq> 0x0A"
    "c \<noteq> 0x0C" "c \<noteq> 0x0D" "\<not> is_high c"
  using assms by (auto simp: is_high_def is_low_def word_le_nat_alt word_less_nat_alt)

lemma quote_chars_pair:
  "is_high c \<Longrightarrow> is_low d \<Longrightarrow> quote_chars (c # d # r) = c # d # quote_chars r"
  by (simp add: high_props)

lemma quote_chars_lone_high:
  "is_high c \<Longrightarrow> (case r of [] \<Rightarrow> True | d # r' \<Rightarrow> \<not> is_low d) \<Longrightarrow>
   quote_chars (c # r) = unicode_escape c @ quote_chars r"
  by (cases r) (simp_all add: high_props)

lemma quote_chars_lone_low:
  "is_low c \<Longrightarrow> quote_chars (c # r) = unicode_escape c @ quote_chars r"
  by (simp add: low_props)

lemma quote_chars_ctl:
  "\<not> short_escape c \<Longrightarrow> c < 0x20 \<Longrightarrow> quote_chars (c # r) = unicode_escape c @ quote_chars r"
  by (simp add: short_escape_def)

lemma quote_chars_plain:
  "\<not> short_escape c \<Longrightarrow> \<not> c < 0x20 \<Longrightarrow> \<not> is_high c \<Longrightarrow> \<not> is_low c \<Longrightarrow>
   quote_chars (c # r) = c # quote_chars r"
  by (simp add: short_escape_def)

lemma str_chars_short:
  "short_escape c \<Longrightarrow>
   str_chars (quote_chars (c # r) @ x) = cons_res c (str_chars (quote_chars r @ x))"
  unfolding short_escape_def
  by (elim disjE) (simp_all add: unescape_def)


lemma str_chars_quote_chars:
  "str_chars (quote_chars s @ 0x22 # rest) = Some (s, rest)"
proof (induction "length s" arbitrary: s rule: less_induct)
  case less
  show ?case
  proof (cases s)
    case Nil
    then show ?thesis by simp
  next
    case (Cons c r)
    have IH: "str_chars (quote_chars r @ 0x22 # rest) = Some (r, rest)"
      using less [of r] Cons by simp
    show ?thesis
    proof (cases "short_escape c")
      case True
      show ?thesis
        unfolding Cons by (simp only: str_chars_short [OF True] IH cons_res_def) simp
    next
      case ns: False
      show ?thesis
      proof (cases "c < 0x20")
        case True
        show ?thesis
          unfolding Cons
          by (simp only: quote_chars_ctl [OF ns True] append_assoc str_chars_escape IH cons_res_def)
             simp
      next
        case nc: False
        show ?thesis
        proof (cases "is_high c")
          case True
          show ?thesis
          proof (cases "case r of [] \<Rightarrow> True | d # r' \<Rightarrow> \<not> is_low d")
            case lone: True
            show ?thesis
              unfolding Cons
              by (simp only: quote_chars_lone_high [OF True lone] append_assoc str_chars_escape
                    IH cons_res_def) simp
          next
            case False
            then obtain d r' where r: "r = d # r'" and d: "is_low d"
              by (cases r) simp_all
            have IH': "str_chars (quote_chars r' @ 0x22 # rest) = Some (r', rest)"
              using less [of r'] Cons r by simp
            have "str_chars (c # d # quote_chars r' @ 0x22 # rest) = Some (c # d # r', rest)"
              using high_props [OF True] low_props [OF d] IH' by (simp add: cons_res_def)
            then show ?thesis
              unfolding Cons r by (simp only: quote_chars_pair [OF True d] append_Cons)
          qed
        next
          case nh: False
          show ?thesis
          proof (cases "is_low c")
            case True
            show ?thesis
              unfolding Cons
              by (simp only: quote_chars_lone_low [OF True] append_assoc str_chars_escape
                    IH cons_res_def) simp
          next
            case False
            have "c \<noteq> 0x22" "c \<noteq> 0x5C" using ns by (auto simp: short_escape_def)
            then have "str_chars (c # quote_chars r @ 0x22 # rest) = Some (c # r, rest)"
              using nc IH by (simp add: cons_res_def)
            then show ?thesis
              unfolding Cons by (simp only: quote_chars_plain [OF ns nc nh False] append_Cons)
          qed
        qed
      qed
    qed
  qed
qed


lemma wf16_plain_Cons: "plain16 c \<Longrightarrow> wf16 (c # t) = wf16 t"
  by (cases t) (simp_all add: plain16_def)

lemma wf16_plain_append: "list_all plain16 a \<Longrightarrow> wf16 (a @ t) = wf16 t"
  by (induction a) (simp_all add: wf16_plain_Cons)

lemma wf16_pair_Cons: "is_high c \<Longrightarrow> is_low d \<Longrightarrow> wf16 (c # d # t) = wf16 t"
  by simp

lemma plain16_hex_digit: "n < 16 \<Longrightarrow> plain16 (hex_digit n)"
proof -
  have "list_all (\<lambda>n. plain16 (hex_digit n)) [0..<16]"
    by (simp add: upt_rec plain16_def is_high_def is_low_def hex_digit_def js_def)
  moreover assume "n < 16"
  ultimately show ?thesis
    by (simp add: list_all_iff)
qed

lemma plain16_unicode_escape: "list_all plain16 (unicode_escape c)"
proof -
  have "unat c div 4096 < 16" using unat_jschar_less [of c] by simp
  then show ?thesis
    by (simp add: unicode_escape_def plain16_hex_digit)
       (simp add: plain16_def is_high_def is_low_def)
qed

lemma plain16_short: "short_escape c \<Longrightarrow> plain16 c"
  unfolding short_escape_def
  by (elim disjE) (simp_all add: plain16_def is_high_def is_low_def)

lemma quote_chars_short:
  "short_escape c \<Longrightarrow> \<exists>e. plain16 e \<and> quote_chars (c # r) = 0x5C # e # quote_chars r"
  unfolding short_escape_def
  by (elim disjE) (simp_all add: plain16_def is_high_def is_low_def)

lemma wf16_quote_chars: "wf16 (quote_chars s @ t) = wf16 t"
proof (induction "length s" arbitrary: s rule: less_induct)
  case less
  show ?case
  proof (cases s)
    case Nil
    then show ?thesis by simp
  next
    case (Cons c r)
    have IH: "wf16 (quote_chars r @ t) = wf16 t"
      using less [of r] Cons by simp
    have esc: "wf16 (unicode_escape c @ quote_chars r @ t) = wf16 t"
      by (simp only: wf16_plain_append [OF plain16_unicode_escape] IH)
    show ?thesis
    proof (cases "short_escape c")
      case True
      then obtain e where e: "plain16 e" "quote_chars (c # r) = 0x5C # e # quote_chars r"
        using quote_chars_short by blast
      have "plain16 0x5C" by (simp add: plain16_def is_high_def is_low_def)
      then show ?thesis
        unfolding Cons e(2) using e(1) IH by (simp only: append_Cons wf16_plain_Cons)
    next
      case ns: False
      show ?thesis
      proof (cases "c < 0x20")
        case True
        show ?thesis
          unfolding Cons by (simp only: quote_chars_ctl [OF ns True] append_assoc esc)
      next
        case nc: False
        show ?thesis
        proof (cases "is_high c")
          case True
          show ?thesis
          proof (cases "case r of [] \<Rightarrow> True | d # r' \<Rightarrow> \<not> is_low d")
            case lone: True
            show ?thesis
              unfolding Cons
              by (simp only: quote_chars_lone_high [OF True lone] append_assoc esc)
          next
            case False
            then obtain d r' where r: "r = d # r'" and d: "is_low d"
              by (cases r) simp_all
            have IH': "wf16 (quote_chars r' @ t) = wf16 t"
              using less [of r'] Cons r by simp
            show ?thesis
              unfolding Cons r
              by (simp only: quote_chars_pair [OF True d] append_Cons wf16_pair_Cons [OF True d] IH')
          qed
        next
          case nh: False
          show ?thesis
          proof (cases "is_low c")
            case True
            show ?thesis
              unfolding Cons by (simp only: quote_chars_lone_low [OF True] append_assoc esc)
          next
            case False
            with nh have "plain16 c" by (simp add: plain16_def)
            then show ?thesis
              unfolding Cons
              by (simp only: quote_chars_plain [OF ns nc nh False] append_Cons wf16_plain_Cons IH)
          qed
        qed
      qed
    qed
  qed
qed

section \<open>Tokens that \<open>createToken\<close> issues\<close>

lemma Buffer_from_simps:
  "Buffer_from None = Inl TypeError" "Buffer_from (Some t) = Inr (utf8_encode t)"
  by (simp_all add: Buffer_from_def)

lemma jwt_header_encoded:
  "Buffer_from (JSON_stringify jwt_header) = Inr hb \<Longrightarrow> b64_encode hb = jwt_header64"
  by (auto simp add: Buffer_from_def JSON_stringify_def jwt_header_def jwt_header64_def js_def quote_def
      is_high_def is_low_def utf8_cp_def b64_char_def b64_alphabet_def b64_pad_def)

lemma jwt_header64_no_dot: "0x2E \<notin> set jwt_header64"
  by (simp add: jwt_header64_def js_def)

lemma createToken_eq:
  "createToken payload =
     (case JSON_stringify payload of
        None \<Rightarrow> Inl TypeError
      | Some text \<Rightarrow> Inr (jwt_header64 @ [0x2E] @ b64_encode (utf8_encode text) @ [0x2E]))"
proof -
  obtain hb where hb: "Buffer_from (JSON_stringify jwt_header) = Inr hb"
    by (simp add: Buffer_from_def JSON_stringify_def jwt_header_def)
  have h: "b64_encode hb = jwt_header64"
    by (rule jwt_header_encoded [OF hb])
  show ?thesis
    by (cases "JSON_stringify payload") (simp_all add: createToken_def hb h Buffer_from_simps js_def)
qed

lemma verifyToken_try_issued:
  "verifyToken_try (h @ [0x2E] @ b64_encode bs @ 0x2E # rest) = JSON_parse (utf8_decode bs)"
  if "0x2E \<notin> set h"
  using that
  by (simp add: verifyToken_try_def split_append_sep b64_encode_no_dot b64_decode_encode)

section \<open>The session claim through the codec\<close>

lemma stringify_claim:
  \<open>JSON_stringify (claim_of (Str e)) = Some (js ''{"sub":'' @ quote e @ js ''}'')\<close>
  by (simp add: JSON_stringify_def claim_of_def js_def quote_def is_high_def is_low_def)

lemma parse_quoted: "parse_value (quote s @ rest) = Some (Str s, rest)"
  by (simp add: quote_def skip_ws_def is_ws_def str_chars_quote_chars)

lemma obj_put_Nil: "obj_put [] k v = [(k, v)]"
  by (simp add: obj_put_def)

lemma JSON_parse_claim:
  \<open>JSON_parse (js ''{"sub":'' @ quote e @ js ''}'') = Inr (claim_of (Str e))\<close>
  by (simp add: JSON_parse_def claim_of_def js_def skip_ws_def is_ws_def cons_res_def
      obj_put_Nil quote_def str_chars_quote_chars)

lemma wf16_claim_text: \<open>wf16 (js ''{"sub":'' @ quote e @ js ''}'')\<close>
  by (simp add: js_def quote_def wf16_plain_Cons plain16_def is_high_def is_low_def
      wf16_quote_chars)

lemma createToken_claim:
  \<open>createToken (claim_of (Str e)) =
   Inr (jwt_header64 @ [0x2E]
        @ b64_encode (utf8_encode (js ''{"sub":'' @ quote e @ js ''}'')) @ [0x2E])\<close>
  by (simp add: createToken_eq stringify_claim)

lemma verifyToken_eq: "verifyToken_try t = Inr v \<Longrightarrow> verifyToken t = Inr v"
  by (simp add: verifyToken_def)

lemmas codec_eval = js_def is_high_def is_low_def quote_def unicode_escape_def hex_digit_def
  is_ws_def skip_ws_def hex_val_def hex4_def unescape_def cons_res_def is_digit_def
  num_int_def num_frac_def num_digits1_def num_exp_def num_lexeme_def strip_prefix_def
  parse_scalar_def JSON_parse_def obj_put_def is_index_def index_val_def
  utf8_cp_def is_cont_def cp_units_def utf8_seq2_def utf8_seq3_def utf8_seq4_def utf8_step_def
  second3_def second4_def pair_cp_def
  b64_char_def b64_alphabet_def b64_pad_def b64_decode_def unbase64_def low_byte_def
  JSON_stringify_def Buffer_from_def jwt_header_def createToken_def
  verifyToken_try_def verifyToken_def claim_of_def

section \<open>The store file: reading undoes saving\<close>

lemma serialize_stored:
  "serialize (js ''  '') (js ''  '') (stored r) = Some (record_text r)"
  by (cases r)
     (auto simp: stored_def record_text_def fld_def member_text_def js_def split: option.splits)

lemma serialize_in_memory:
  "serialize (js ''  '') (js ''  '') (in_memory r) = Some (record_text r)"
  by (cases r)
     (auto simp: in_memory_def user_record_def opt_val_def record_text_def member_text_def js_def
        split: option.splits)


lemma serialize_users:
  assumes "list_all2 writes_as vs rs"
  shows "JSON_stringify2 (Arr vs) = Some (array_text (map record_text rs))"
proof -
  have "map (\<lambda>v. case serialize (js ''  '') ([] @ js ''  '') v of None \<Rightarrow> js ''null'' | Some t \<Rightarrow> t) vs
        = map record_text rs"
    using assms by (induction rule: list_all2_induct) (simp_all add: writes_as_def)
  moreover have "vs = [] \<longleftrightarrow> rs = []"
    using list_all2_lengthD [OF assms] by auto
  ultimately show ?thesis
    by (simp add: JSON_stringify2_def array_text_def Let_def) (simp add: js_def)
qed

lemma skip_ws_Cons: "\<not> is_ws c \<Longrightarrow> skip_ws (c # s) = c # s"
  by (simp add: skip_ws_def)

lemma skip_ws_append: "list_all is_ws w \<Longrightarrow> skip_ws (w @ s) = skip_ws s"
  by (induction w) (simp_all add: skip_ws_def)

lemma parse_value_ws: "list_all is_ws w \<Longrightarrow> parse_value (w @ s) = parse_value s"
  by (simp add: skip_ws_append)

lemma skip_ws_quote: "skip_ws (quote k @ rest) = quote k @ rest"
  by (simp add: quote_def skip_ws_def is_ws_def)

lemma str_chars_quote: "quote k @ rest = 0x22 # t \<Longrightarrow> str_chars t = Some (k, rest)"
  by (auto simp: quote_def str_chars_quote_chars)

lemma length_quote: "length (quote k) = Suc (Suc (length (quote_chars k)))"
  by (simp add: quote_def)

lemma parse_member_step:
  assumes "list_all is_ws w"
  shows "parse_members acc (w @ quote k @ 0x3A # 0x20 # quote v @ 0x2C # rest)
         = parse_members (obj_put acc k (Str v)) rest"
proof -
  have q: "quote k @ 0x3A # 0x20 # quote v @ 0x2C # rest
           = 0x22 # quote_chars k @ 0x22 # 0x3A # 0x20 # quote v @ 0x2C # rest"
    by (simp add: quote_def)
  have v: "parse_value (0x20 # quote v @ 0x2C # rest) = Some (Str v, 0x2C # rest)"
    using parse_value_ws [of "[0x20]" "quote v @ 0x2C # rest"]
    by (simp add: is_ws_def parse_quoted del: parse_value.simps)
  show ?thesis
    apply (subst parse_members.simps)
    apply (simp only: skip_ws_append [OF assms] skip_ws_quote)
    apply (simp only: q list.case str_chars_quote_chars option.case prod.case)
    apply (simp add: skip_ws_def is_ws_def v length_quote
        del: parse_value.simps parse_members.simps)
    done
qed

lemma parse_member_last:
  assumes "list_all is_ws w" "list_all is_ws w'"
  shows "parse_members acc (w @ quote k @ 0x3A # 0x20 # quote v @ w' @ 0x7D # rest)
         = Some (Obj (obj_put acc k (Str v)), rest)"
proof -
  have q: "quote k @ 0x3A # 0x20 # quote v @ w' @ 0x7D # rest
           = 0x22 # quote_chars k @ 0x22 # 0x3A # 0x20 # quote v @ w' @ 0x7D # rest"
    by (simp add: quote_def)
  have v: "parse_value (0x20 # quote v @ w' @ 0x7D # rest) = Some (Str v, w' @ 0x7D # rest)"
    using parse_value_ws [of "[0x20]" "quote v @ w' @ 0x7D # rest"]
    by (simp add: is_ws_def parse_quoted del: parse_value.simps)
  have w': "skip_ws (w' @ 0x7D # rest) = 0x7D # rest"
    by (simp add: skip_ws_append [OF assms(2)] skip_ws_Cons is_ws_def)
  show ?thesis
    apply (subst parse_members.simps)
    apply (simp only: skip_ws_append [OF assms(1)] skip_ws_quote)
    apply (simp only: q list.case str_chars_quote_chars option.case prod.case)
    apply (simp add: skip_ws_def is_ws_def v length_quote
        del: parse_value.simps parse_members.simps)
    apply (simp add: w' [unfolded skip_ws_def] del: parse_value.simps parse_members.simps)
    done
qed

lemma parse_object_start:
  assumes "list_all is_ws w"
  shows "parse_value (0x7B # w @ quote k @ rest) = parse_members [] (quote k @ rest)"
  apply (subst parse_value.simps)
  apply (simp add: skip_ws_Cons is_ws_def skip_ws_append [OF assms] skip_ws_quote
      del: parse_value.simps parse_members.simps)
  apply (simp add: quote_def del: parse_value.simps parse_members.simps)
  done


lemma parse_object_start4:
  "parse_value (0x7B # 0x0A # 0x20 # 0x20 # 0x20 # 0x20 # quote k @ rest)
   = parse_members [] (quote k @ rest)"
  using parse_object_start [of "[0x0A, 0x20, 0x20, 0x20, 0x20]" k rest]
  by (simp add: is_ws_def del: parse_value.simps parse_members.simps)

lemma parse_member_step0:
  "parse_members acc (quote k @ 0x3A # 0x20 # quote v @ 0x2C # rest)
   = parse_members (obj_put acc k (Str v)) rest"
  using parse_member_step [of "[]" acc k v rest]
  by (simp del: parse_value.simps parse_members.simps)

lemma parse_member_step4:
  "parse_members acc (0x0A # 0x20 # 0x20 # 0x20 # 0x20 # quote k @ 0x3A # 0x20 # quote v @ 0x2C # rest)
   = parse_members (obj_put acc k (Str v)) rest"
  using parse_member_step [of "[0x0A, 0x20, 0x20, 0x20, 0x20]" acc k v rest]
  by (simp add: is_ws_def del: parse_value.simps parse_members.simps)

lemma parse_member_last0:
  "parse_members acc (quote k @ 0x3A # 0x20 # quote v @ 0x0A # 0x20 # 0x20 # 0x7D # rest)
   = Some (Obj (obj_put acc k (Str v)), rest)"
  using parse_member_last [of "[]" "[0x0A, 0x20, 0x20]" acc k v rest]
  by (simp add: is_ws_def del: parse_value.simps parse_members.simps)

lemma parse_member_last4:
  "parse_members acc (0x0A # 0x20 # 0x20 # 0x20 # 0x20 # quote k @ 0x3A # 0x20 # quote v
                      @ 0x0A # 0x20 # 0x20 # 0x7D # rest)
   = Some (Obj (obj_put acc k (Str v)), rest)"
  using parse_member_last [of "[0x0A, 0x20, 0x20, 0x20, 0x20]" "[0x0A, 0x20, 0x20]" acc k v rest]
  by (simp add: is_ws_def del: parse_value.simps parse_members.simps)

lemma parse_empty_object: "parse_value (0x7B # 0x7D # rest) = Some (Obj [], rest)"
  by (simp add: skip_ws_def is_ws_def)

lemmas parse_record_rules = parse_object_start4 parse_member_step0 parse_member_step4
  parse_member_last0 parse_member_last4 parse_empty_object

lemma parse_record:
  "parse_value (record_text r @ rest) = Some (stored r, rest)"
proof -
  obtain n e p where r: "r = (n, e, p)" by (cases r)
  show ?thesis
    unfolding r
    by (cases n; cases e; cases p)
       (simp_all add: record_text_def member_text_def stored_def fld_def js_def
          parse_record_rules obj_put_def is_index_def is_digit_def
          del: parse_value.simps parse_members.simps)
qed


lemma record_text_brace: "\<exists>t. record_text r = 0x7B # t"
  by (cases r) (simp add: record_text_def Let_def js_def)

lemma parse_elements_records:
  assumes "rs \<noteq> []" "list_all is_ws w"
  shows "parse_elements acc (w @ join (0x2C # 0x0A # js ''  '') (map record_text rs)
                             @ 0x0A # 0x5D # rest)
         = Some (Arr (acc @ map stored rs), rest)"
  using assms
proof (induction rs arbitrary: acc w rule: list_nonempty_induct)
  case (single r)
  have v: "parse_value (w @ record_text r @ 0x0A # 0x5D # rest)
           = Some (stored r, 0x0A # 0x5D # rest)"
    by (simp only: parse_value_ws [OF single] parse_record)
  show ?case
    apply (subst parse_elements.simps)
    apply (simp add: v skip_ws_def is_ws_def
        del: parse_value.simps parse_elements.simps parse_members.simps)
    done
next
  case (cons r rs)
  obtain r2 rs2 where rs: "rs = r2 # rs2" using cons(1) by (cases rs) auto
  let ?more = "join (0x2C # 0x0A # js ''  '') (map record_text rs) @ 0x0A # 0x5D # rest"
  have j: "join (0x2C # 0x0A # js ''  '') (map record_text (r # rs)) @ 0x0A # 0x5D # rest
           = record_text r @ 0x2C # [0x0A, 0x20, 0x20] @ ?more"
    by (simp add: rs js_def)
  have v: "parse_value (w @ record_text r @ 0x2C # [0x0A, 0x20, 0x20] @ ?more)
           = Some (stored r, 0x2C # [0x0A, 0x20, 0x20] @ ?more)"
    by (simp only: parse_value_ws [OF cons(3)] parse_record)
  have IH: "parse_elements (acc @ [stored r]) ([0x0A, 0x20, 0x20] @ ?more)
            = Some (Arr ((acc @ [stored r]) @ map stored rs), rest)"
    by (rule cons(2)) (simp add: is_ws_def)
  show ?case
    apply (simp only: j)
    apply (subst parse_elements.simps)
    apply (simp only: v option.case prod.case)
    apply (simp add: skip_ws_def is_ws_def IH [simplified append_Cons append_Nil append_assoc]
        del: parse_value.simps parse_elements.simps parse_members.simps)
    done
qed

lemma parse_users:
  "parse_value (array_text (map record_text rs) @ rest) = Some (Arr (map stored rs), rest)"
proof (cases rs)
  case Nil
  then show ?thesis by (simp add: array_text_def js_def skip_ws_def is_ws_def)
next
  case (Cons r rs')
  obtain t where t: "record_text r = 0x7B # t" using record_text_brace by blast
  let ?body = "join (0x2C # 0x0A # js ''  '') (map record_text rs) @ 0x0A # 0x5D # rest"
  have b: "\<exists>t'. ?body = 0x7B # t'"
    using t by (cases rs') (simp_all add: Cons)
  then obtain t' where t': "?body = 0x7B # t'" by blast
  have e: "parse_elements [] ([] @ ?body) = Some (Arr ([] @ map stored rs), rest)"
    by (rule parse_elements_records) (simp_all add: Cons)
  have a: "array_text (map record_text rs) @ rest = 0x5B # 0x0A # 0x20 # 0x20 # ?body"
    by (simp add: array_text_def Cons js_def)
  show ?thesis
    apply (simp only: a)
    apply (subst parse_value.simps)
    apply (simp add: skip_ws_def is_ws_def t'
        del: parse_value.simps parse_elements.simps parse_members.simps)
    apply (simp add: t' [symmetric] e [simplified append_Cons append_Nil append_assoc]
        del: parse_value.simps parse_elements.simps parse_members.simps)
    done
qed

lemma JSON_parse_users:
  "JSON_parse (array_text (map record_text rs)) = Inr (Arr (map stored rs))"
  using parse_users [of rs "[]"]
  by (simp add: JSON_parse_def skip_ws_def del: parse_value.simps)


lemma wf16_quote: "wf16 (quote s @ t) = wf16 t"
  by (simp add: quote_def wf16_plain_Cons plain16_def is_high_def is_low_def wf16_quote_chars)

lemma wf16_ascii: "list_all (\<lambda>c. c < 0x80) a \<Longrightarrow> wf16 (a @ t) = wf16 t"
proof (rule wf16_plain_append)
  assume "list_all (\<lambda>c. c < 0x80) a"
  then show "list_all plain16 a"
    by (induction a)
       (auto simp: plain16_def is_high_def is_low_def word_le_nat_alt word_less_nat_alt)
qed

lemma wf16_record_text: "wf16 (record_text r @ t) = wf16 t"
proof -
  obtain n e p where r: "r = (n, e, p)" by (cases r)
  have c: "\<And>c t. c < 0x80 \<Longrightarrow> wf16 (c # t) = wf16 t"
    using wf16_ascii [of "[c]" for c] by simp
  show ?thesis
    unfolding r
    by (cases n; cases e; cases p)
       (simp_all add: record_text_def member_text_def js_def wf16_quote c is_high_def is_low_def)
qed

lemma wf16_records_join:
  "wf16 (join (0x2C # 0x0A # js ''  '') (map record_text rs) @ t) = wf16 t"
proof (induction rs rule: induct_list012)
  case 1
  show ?case by simp
next
  case (2 r)
  show ?case by (simp add: wf16_record_text)
next
  case (3 r r' rs)
  have c: "\<And>c t. c < 0x80 \<Longrightarrow> wf16 (c # t) = wf16 t"
    using wf16_ascii [of "[c]" for c] by simp
  show ?case
    using 3(2) by (simp add: wf16_record_text js_def c is_high_def is_low_def)
qed

lemma wf16_array_text: "wf16 (array_text (map record_text rs))"
proof -
  have c: "\<And>c t. c < 0x80 \<Longrightarrow> wf16 (c # t) = wf16 t"
    using wf16_ascii [of "[c]" for c] by simp
  show ?thesis
    by (simp add: array_text_def js_def c is_high_def is_low_def
        wf16_records_join [unfolded js_def, simplified])
qed

lemma save_then_read:
  assumes "list_all2 writes_as vs rs"
  shows "saveUsers (Arr vs) files
           = Inr (files(DB_FILE \<mapsto> utf8_encode (array_text (map record_text rs))))"
    and "readUsers (files(DB_FILE \<mapsto> utf8_encode (array_text (map record_text rs))))
           = Inr (Arr (map stored rs))"
proof -
  show "saveUsers (Arr vs) files
           = Inr (files(DB_FILE \<mapsto> utf8_encode (array_text (map record_text rs))))"
    by (simp add: saveUsers_def writeFileSync_def serialize_users [OF assms])
  show "readUsers (files(DB_FILE \<mapsto> utf8_encode (array_text (map record_text rs))))
           = Inr (Arr (map stored rs))"
    by (simp add: readUsers_def existsSync_def readFileSync_def
        utf8_decode_encode [OF wf16_array_text] JSON_parse_users)
qed

section \<open>The routes on a store of user records\<close>

lemma get_prop_stored:
  "get_prop (stored r) (js ''email'') = Inr (opt_val (email_of r))"
  "get_prop (stored r) (js ''password'') = Inr (opt_val (password_of r))"
  "get_prop (stored r) (js ''name'') = Inr (opt_val (name_of r))"
  by (cases r; cases "fst r"; cases "fst (snd r)"; cases "snd (snd r)";
      simp add: stored_def fld_def opt_val_def email_of_def password_of_def name_of_def js_def)+

lemma strict_eq_opt_val: "strict_eq (opt_val a) (opt_val b) \<longleftrightarrow> a = b"
  by (cases a; cases b) (simp_all add: opt_val_def)

lemma truthy_stored: "truthy (stored r)"
  by (cases r) (simp add: stored_def)

lemma same_email_stored:
  "same_email (opt_val e) (stored r) = Inr (email_of r = e)"
  by (simp add: same_email_def get_prop_stored strict_eq_opt_val)

lemma same_credentials_stored:
  "same_credentials (opt_val e) (opt_val p) (stored r)
   = Inr (email_of r = e \<and> password_of r = p)"
  by (simp add: same_credentials_def get_prop_stored strict_eq_opt_val)

lemma find_loop_stored:
  assumes "\<And>r. f (stored r) = Inr (q r)"
  shows "find_loop f (map stored rs)
         = Inr (case List.find q rs of None \<Rightarrow> Undefined | Some r \<Rightarrow> stored r)"
  by (induction rs) (simp_all add: assms)

lemma find_email:
  "array_find (same_email (opt_val e)) (Arr (map stored rs))
   = Inr (case List.find (\<lambda>r. email_of r = e) rs of None \<Rightarrow> Undefined | Some r \<Rightarrow> stored r)"
  by (simp add: array_find_def find_loop_stored [where q = "\<lambda>r. email_of r = e"] same_email_stored)

lemma find_credentials:
  "array_find (same_credentials (opt_val e) (opt_val p)) (Arr (map stored rs))
   = Inr (case List.find (\<lambda>r. email_of r = e \<and> password_of r = p) rs of
            None \<Rightarrow> Undefined | Some r \<Rightarrow> stored r)"
  by (simp add: array_find_def
      find_loop_stored [where q = "\<lambda>r. email_of r = e \<and> password_of r = p"]
      same_credentials_stored)

lemma createToken_total: "\<exists>token. createToken (claim_of v) = Inr token"
  by (simp add: createToken_eq claim_of_def JSON_stringify_def Let_def)

lemma readUsers_write:
  "readUsers (files(DB_FILE \<mapsto> store_file rs)) = Inr (Arr (map stored rs))"
proof -
  have "list_all2 writes_as (map stored rs) rs"
    by (simp add: list_all2_map1 list_all2_refl writes_as_def serialize_stored)
  then show ?thesis
    unfolding store_file_def by (rule save_then_read(2))
qed

lemma holds_write: "holds (files(DB_FILE \<mapsto> store_file rs)) rs"
  by (simp add: holds_def readUsers_write)

lemma holds_absent: "files DB_FILE = None \<Longrightarrow> holds files []"
  by (simp add: holds_def readUsers_def existsSync_def)

lemma holds_unique: "holds files rs \<Longrightarrow> holds files rs' \<Longrightarrow> map stored rs = map stored rs'"
  by (simp add: holds_def)

lemma push_save:
  "saveUsers (Arr (map stored rs @ [user_record (opt_val n) (opt_val e) (opt_val p)])) files
   = Inr (files(DB_FILE \<mapsto> store_file (rs @ [(n, e, p)])))"
proof -
  have "list_all2 writes_as (map stored rs @ [in_memory (n, e, p)]) (rs @ [(n, e, p)])"
    by (intro list_all2_appendI)
       (simp_all add: list_all2_map1 list_all2_refl writes_as_def serialize_stored
          serialize_in_memory)
  then show ?thesis
    using save_then_read(1) [of "map stored rs @ [in_memory (n, e, p)]" "rs @ [(n, e, p)]" files]
    by (simp add: in_memory_def store_file_def)
qed

lemma find_taken:
  assumes "e \<in> set (map email_of rs)"
  shows "\<exists>r. List.find (\<lambda>r. email_of r = e) rs = Some r"
proof (cases "List.find (\<lambda>r. email_of r = e) rs")
  case None
  then have "\<forall>x\<in>set rs. email_of x \<noteq> e" unfolding find_None_iff by blast
  moreover have "\<exists>x\<in>set rs. email_of x = e" using assms unfolding set_map by blast
  ultimately show ?thesis by blast
next
  case (Some r)
  then show ?thesis by blast
qed

lemma find_free:
  assumes "e \<notin> set (map email_of rs)"
  shows "List.find (\<lambda>r. email_of r = e) rs = None"
proof -
  have "\<forall>x\<in>set rs. email_of x \<noteq> e" using assms unfolding set_map by blast
  then show ?thesis unfolding find_None_iff by blast
qed

lemma register_taken:
  assumes "holds files rs" "submits body r" "email_of r \<in> set (map email_of rs)"
  shows "register_http body files = (files, Inr (redirect_http (js ''/register'')))"
    and "register_express body files = (files, Inr [Redirect (js ''/register'')])"
proof -
  obtain r' where f: "List.find (\<lambda>x. email_of x = email_of r) rs = Some r'"
    using find_taken [OF assms(3)] by blast
  show "register_http body files = (files, Inr (redirect_http (js ''/register'')))"
    using assms(1,2)
    by (simp add: register_http_def submits_def holds_def find_email f truthy_stored)
  show "register_express body files = (files, Inr [Redirect (js ''/register'')])"
    using assms(1,2)
    by (simp add: register_express_def submits_def holds_def find_email f truthy_stored)
qed

lemma register_new:
  assumes "holds files rs" "submits body r" "email_of r \<notin> set (map email_of rs)"
    and "createToken (claim_of (opt_val (email_of r))) = Inr token"
  shows "register_http body files
         = (files(DB_FILE \<mapsto> store_file (rs @ [r])), Inr (login_cookie_http token))"
    and "register_express body files
         = (files(DB_FILE \<mapsto> store_file (rs @ [r])),
            Inr [Cookie (js ''access_token'') token True, Redirect (js ''/profile'')])"
proof -
  obtain n e p where r: "r = (n, e, p)" by (cases r)
  have f: "List.find (\<lambda>x. email_of x = email_of r) rs = None"
    by (rule find_free [OF assms(3)])
  have s: "saveUsers (Arr (map stored rs @ [user_record (opt_val (name_of r))
             (opt_val (email_of r)) (opt_val (password_of r))])) files
           = Inr (files(DB_FILE \<mapsto> store_file (rs @ [r])))"
    using push_save [of rs n e p files]
    by (simp add: r name_of_def email_of_def password_of_def)
  show "register_http body files
         = (files(DB_FILE \<mapsto> store_file (rs @ [r])), Inr (login_cookie_http token))"
    using assms(1,2,4)
    by (simp add: register_http_def submits_def holds_def find_email f array_push_def s)
  show "register_express body files
         = (files(DB_FILE \<mapsto> store_file (rs @ [r])),
            Inr [Cookie (js ''access_token'') token True, Redirect (js ''/profile'')])"
    using assms(1,2,4)
    by (simp add: register_express_def submits_def holds_def find_email f array_push_def s)
qed

lemma submits_login_fields:
  "submits body r \<Longrightarrow> login_fields body = Inr (opt_val (email_of r), opt_val (password_of r))"
  by (auto simp: submits_def form_fields_def login_fields_def split: sum.splits)

lemma login_fails:
  assumes "holds files rs" "submits body r"
    and "\<not> (\<exists>u\<in>set rs. email_of u = email_of r \<and> password_of u = password_of r)"
  shows "login_http body files = (files, Inr (redirect_http (js ''/'')))"
    and "login_express body files = (files, Inr [Redirect (js ''/'')])"
proof -
  have f: "List.find (\<lambda>u. email_of u = email_of r \<and> password_of u = password_of r) rs = None"
    using assms(3) unfolding find_None_iff by blast
  show "login_http body files = (files, Inr (redirect_http (js ''/'')))"
    using assms(1) submits_login_fields [OF assms(2)]
    by (simp add: login_http_def holds_def find_credentials f)
  show "login_express body files = (files, Inr [Redirect (js ''/'')])"
    using assms(1) submits_login_fields [OF assms(2)]
    by (simp add: login_express_def holds_def find_credentials f)
qed

lemma login_succeeds:
  assumes "holds files rs" "submits body r"
    and "\<exists>u\<in>set rs. email_of u = email_of r \<and> password_of u = password_of r"
    and "createToken (claim_of (opt_val (email_of r))) = Inr token"
  shows "login_http body files = (files, Inr (login_cookie_http token))"
    and "login_express body files
         = (files, Inr [Cookie (js ''access_token'') token True, Redirect (js ''/profile'')])"
proof -
  have "List.find (\<lambda>u. email_of u = email_of r \<and> password_of u = password_of r) rs \<noteq> None"
    using assms(3) unfolding find_None_iff by blast
  then obtain u where f: "List.find (\<lambda>u. email_of u = email_of r \<and> password_of u = password_of r) rs
                     = Some u"
    by blast
  show "login_http body files = (files, Inr (login_cookie_http token))"
    using assms(1,4) submits_login_fields [OF assms(2)]
    by (simp add: login_http_def holds_def find_credentials f truthy_stored)
  show "login_express body files
         = (files, Inr [Cookie (js ''access_token'') token True, Redirect (js ''/profile'')])"
    using assms(1,4) submits_login_fields [OF assms(2)]
    by (simp add: login_express_def holds_def find_credentials f truthy_stored)
qed

lemma fst_profile_http: "fst (profile_http c files) = files"
  by (simp add: profile_http_def split: sum.splits)

lemma fst_profile_express: "fst (profile_express c files) = files"
  by (simp add: profile_express_def split: sum.splits)

lemma fst_login_http: "fst (login_http body files) = files"
  by (simp add: login_http_def split: sum.splits prod.splits)

lemma fst_login_express: "fst (login_express body files) = files"
  by (simp add: login_express_def split: sum.splits prod.splits)

lemma register_keeps_inv:
  assumes "store_inv files" "form body"
  shows "store_inv (fst (register_http body files))"
    and "store_inv (fst (register_express body files))"
proof -
  obtain rs where rs: "holds files rs" "distinct (map email_of rs)"
    using assms(1) unfolding store_inv_def by blast
  obtain r where r: "submits body r"
    using assms(2) unfolding form_def by blast
  obtain token where t: "createToken (claim_of (opt_val (email_of r))) = Inr token"
    using createToken_total by blast
  have "store_inv (fst (register_http body files)) \<and> store_inv (fst (register_express body files))"
  proof (cases "email_of r \<in> set (map email_of rs)")
    case True
    show ?thesis
      using assms(1) by (simp add: register_taken [OF rs(1) r True])
  next
    case False
    have "holds (files(DB_FILE \<mapsto> store_file (rs @ [r]))) (rs @ [r])"
      by (rule holds_write)
    moreover have "distinct (map email_of (rs @ [r]))"
      using rs(2) False by simp
    ultimately have "store_inv (files(DB_FILE \<mapsto> store_file (rs @ [r])))"
      unfolding store_inv_def by blast
    then show ?thesis
      by (simp add: register_new [OF rs(1) r False t])
  qed
  then show "store_inv (fst (register_http body files))"
    and "store_inv (fst (register_express body files))" by simp_all
qed

lemma server_http_keeps_inv:
  assumes "store_inv files" "form (req_body req)"
  shows "store_inv (fst (server_http req files))"
  using assms
  by (simp add: server_http_def fst_profile_http fst_login_http register_keeps_inv(1))

lemma app_express_keeps_inv:
  assumes "store_inv files" "express_form req"
  shows "store_inv (fst (app_express req files))"
  using assms
  by (cases req) (simp_all add: fst_profile_express fst_login_express register_keeps_inv(2))

lemma run_http_keeps_inv:
  "store_inv files \<Longrightarrow> list_all (\<lambda>req. form (req_body req)) reqs \<Longrightarrow> store_inv (run_http reqs files)"
  by (induction reqs arbitrary: files) (simp_all add: server_http_keeps_inv)

lemma run_express_keeps_inv:
  "store_inv files \<Longrightarrow> list_all express_form reqs \<Longrightarrow> store_inv (run_express reqs files)"
  by (induction reqs arbitrary: files) (simp_all add: app_express_keeps_inv)

lemma example_submits:
  "submits ann_form ann" "submits bob_form bob" "submits wrong_form wrong"
  by (simp_all add: submits_def form_fields_def ann_form_def ann_def bob_form_def bob_def
      wrong_form_def wrong_def name_of_def email_of_def password_of_def opt_val_def js_def)

lemma example_emails:
  "email_of ann = Some (js ''a@x.com'')" "email_of bob = Some (js '' A@X.com'')"
  "email_of wrong = Some (js ''a@x.com'')" "password_of ann = Some (js ''p'')"
  "password_of wrong = Some (js ''guess'')"
  by (simp_all add: ann_def bob_def wrong_def email_of_def password_of_def)

lemma ann_store_holds: "holds ann_store [ann]"
  unfolding ann_store_def by (rule holds_write)

lemma ann_store_registered:
  "fst (register_http ann_form Map.empty) = ann_store"
  "fst (register_express ann_form Map.empty) = ann_store"
proof -
  have h: "holds Map.empty []" by (rule holds_absent) simp
  obtain token where t: "createToken (claim_of (opt_val (email_of ann))) = Inr token"
    using createToken_total by blast
  show "fst (register_http ann_form Map.empty) = ann_store"
    using register_new(1) [OF h example_submits(1) _ t] by (simp add: ann_store_def)
  show "fst (register_express ann_form Map.empty) = ann_store"
    using register_new(2) [OF h example_submits(1) _ t] by (simp add: ann_store_def)
qed

section \<open>The profile route and the cookie of a login\<close>

lemma verifyToken_issued:
  assumes "createToken (claim_of (Str e)) = Inr token"
  shows "verifyToken token = Inr (claim_of (Str e))"
proof -
  let ?text = \<open>js ''{"sub":'' @ quote e @ js ''}''\<close>
  have t: "token = jwt_header64 @ [0x2E] @ b64_encode (utf8_encode ?text) @ [0x2E]"
    using assms by (simp add: createToken_claim)
  have "verifyToken_try token = JSON_parse (utf8_decode (utf8_encode ?text))"
    unfolding t
    using verifyToken_try_issued [OF jwt_header64_no_dot, of "utf8_encode ?text" "[]"]
    by simp
  also have "\<dots> = Inr (claim_of (Str e))"
    by (simp only: utf8_decode_encode [OF wf16_claim_text] JSON_parse_claim)
  finally show ?thesis
    by (rule verifyToken_eq)
qed

lemma jwt_header64_split: "jwt_header64 = jwt_header35 @ [0x3D]"
  by (simp add: jwt_header64_def jwt_header35_def js_def)

lemma decode_header35: "decodeURIComponent (Some jwt_header35) = Inr jwt_header35"
  by (simp add: decodeURIComponent_def jwt_header35_def js_def cons_item_def app_units_def)

lemma verifyToken_header35: "verifyToken jwt_header35 = Inr Null"
proof -
  have "0x2E \<notin> set jwt_header35" by (simp add: jwt_header35_def js_def)
  then show ?thesis
    by (simp add: verifyToken_def verifyToken_try_def split_no_sep)
qed

lemma parseCookies_issued:
  assumes "token = jwt_header64 @ [0x2E] @ b64_encode bs @ [0x2E]"
  shows "\<exists>cookies. parseCookies (Some (js ''access_token='' @ token)) = Inr cookies
            \<and> cookies (js ''access_token'') = Some jwt_header35"
proof -
  define h where "h = js ''access_token='' @ token"
  define rest where "rest = [0x2E] @ b64_encode bs @ [0x2E]"
  have ns: "0x3B \<notin> set h"
    unfolding h_def assms
    by (simp add: b64_encode_no_semicolon) (simp add: jwt_header64_def js_def)
  have ne: "h \<noteq> []" by (simp add: h_def js_def)
  have e: "h = js ''access_token'' @ 0x3D # jwt_header35 @ 0x3D # rest"
    by (simp add: h_def assms rest_def jwt_header64_split js_def)
  have "0x3D \<notin> set (js ''access_token'')" "0x3D \<notin> set jwt_header35"
    by (simp_all add: jwt_header35_def js_def)
  then have p: "split 0x3D h = js ''access_token'' # jwt_header35 # split 0x3D rest"
    unfolding e by (simp add: split_append_sep del: split.simps)
  have t: "trim (js ''access_token'') = js ''access_token''"
    by (simp add: trim_def is_js_space_def js_def)
  have "\<exists>cookies. parseCookies (Some h) = Inr cookies
            \<and> cookies (js ''access_token'') = Some jwt_header35"
    using ne
    by (simp add: parseCookies_def split_no_sep [OF ns] p nth_opt_def decode_header35 t
        del: split.simps)
  then show ?thesis by (simp only: h_def)
qed

lemma profile_http_issued:
  assumes "token = jwt_header64 @ [0x2E] @ b64_encode bs @ [0x2E]"
  shows "profile_http (Some (js ''access_token='' @ token)) files
         = (files, Inr (redirect_http (js ''/'')))"
proof -
  obtain cookies where
    c: "parseCookies (Some (js ''access_token='' @ token)) = Inr cookies"
      "cookies (js ''access_token'') = Some jwt_header35"
    using parseCookies_issued [OF assms] by blast
  have "jwt_header35 \<noteq> []" by (simp add: jwt_header35_def js_def)
  then show ?thesis
    unfolding profile_http_def c(1)
    by (simp add: c(2) token_payload_def verifyToken_header35)
qed

lemma profile_express_issued:
  assumes "holds files rs" "u \<in> set rs" "email_of u = Some e"
    and "createToken (claim_of (Str e)) = Inr token"
  shows "\<exists>v. profile_express [js ''access_token'' \<mapsto> token] files
              = (files, Inr [Send (ProfilePage v)])"
proof -
  have "List.find (\<lambda>r. email_of r = Some e) rs \<noteq> None"
    using assms(2,3) unfolding find_None_iff by blast
  then obtain v where f: "List.find (\<lambda>r. email_of r = Some e) rs = Some v" by blast
  have ne: "token \<noteq> []"
    using assms(4) by (auto simp: createToken_claim)
  have s: "Str e = opt_val (Some e)" by (simp add: opt_val_def)
  have "profile_express [js ''access_token'' \<mapsto> token] files
        = (files, Inr [Send (ProfilePage (stored v))])"
    using assms(1) ne
    by (simp add: profile_express_def token_payload_def verifyToken_issued [OF assms(4)]
        claim_of_def holds_def)
       (simp add: s find_email f truthy_stored)
  then show ?thesis by blast
qed

lemma createToken_shape:
  assumes "createToken (claim_of v) = Inr token"
  shows "\<exists>bs. token = jwt_header64 @ [0x2E] @ b64_encode bs @ [0x2E]"
  using assms by (auto simp: createToken_eq split: option.splits)

lemma createToken_ann:
  "createToken (claim_of (Str (js ''a@x.com'')))
   = Inr (js ''eyJhbGciOiJub25lIiwidHlwIjoiSldUIn0=.eyJzdWIiOiJhQHguY29tIn0=.'')"
  by (simp add: codec_eval)

subsection \<open>Segments of a token\<close>

lemma split_not_Nil: "split sep s \<noteq> []"
  by (induction s) (auto split: list.splits)

lemma split_single: "length (split sep s) < 2 \<longleftrightarrow> sep \<notin> set s"
proof (induction s)
  case Nil
  show ?case by simp
next
  case (Cons c r)
  show ?case
  proof (cases "c = sep")
    case True
    with split_not_Nil [of sep r] show ?thesis by (cases "split sep r") simp_all
  next
    case False
    with Cons split_not_Nil [of sep r] show ?thesis by (cases "split sep r") simp_all
  qed
qed

lemma split_join:
  "parts \<noteq> [] \<Longrightarrow> \<forall>p \<in> set parts. sep \<notin> set p \<Longrightarrow> split sep (join [sep] parts) = parts"
proof (induction "[sep]" parts rule: join.induct)
  case 1
  then show ?case by simp
next
  case (2 x)
  then show ?case by (simp add: split_no_sep)
next
  case (3 x y r)
  then show ?case by (simp add: split_append_sep)
qed

lemma verifyToken_low_byte:
  "verifyToken (js ''a.'' @ [0x165, 0x133, 0x130]) = Inr (Obj [])"
  by (simp add: codec_eval)

section \<open>Properties of the token codec\<close>

text \<open>
  C1, as stated, does not hold. The token issued for \<open>a@x.com\<close> becomes, with only its
  payload segment replaced, a token that \<open>verifyToken\<close> accepts: it returns the altered
  claim, with subject \<open>b@x.com\<close>, and not \<open>null\<close>.
\<close>

theorem tampered_payload_accepted:
  "createToken (claim_of (Str (js ''a@x.com'')))
     = Inr (js ''eyJhbGciOiJub25lIiwidHlwIjoiSldUIn0=.eyJzdWIiOiJhQHguY29tIn0=.'')
   \<and> verifyToken (js ''eyJhbGciOiJub25lIiwidHlwIjoiSldUIn0=.eyJzdWIiOiJiQHguY29tIn0=.'')
     = Inr (Obj [(js ''sub'', Str (js ''b@x.com''))])"
  by (simp add: codec_eval)

text \<open>
  C1, amended. \<open>verifyToken\<close> does not detect a modified payload: whatever the other
  segments are, when the payload segment is replaced by the base64 text of another
  claim \<open>{sub: email}\<close>, \<open>verifyToken\<close> returns that altered claim.
\<close>

theorem verifyToken_returns_altered_claim:
  assumes "0x2E \<notin> set header"
    and "JSON_stringify (claim_of (Str email)) = Some text"
  shows "verifyToken (header @ js ''.'' @ b64_encode (utf8_encode text) @ js ''.'' @ signature)
         = Inr (claim_of (Str email))"
proof -
  have t: \<open>text = js ''{"sub":'' @ quote email @ js ''}''\<close>
    using assms(2) by (simp add: stringify_claim)
  have "verifyToken_try (header @ [0x2E] @ b64_encode (utf8_encode text) @ 0x2E # signature)
        = JSON_parse (utf8_decode (utf8_encode text))"
    by (rule verifyToken_try_issued [OF assms(1)])
  also have "\<dots> = Inr (claim_of (Str email))"
    unfolding t by (simp only: utf8_decode_encode [OF wf16_claim_text] JSON_parse_claim)
  finally have "verifyToken (header @ [0x2E] @ b64_encode (utf8_encode text) @ 0x2E # signature)
                = Inr (claim_of (Str email))"
    by (rule verifyToken_eq)
  then show ?thesis by (simp add: js_def)
qed

theorem verifyToken_returns_altered_claim_witness:
  \<open>verifyToken (js ''x'' @ js ''.''
      @ b64_encode (utf8_encode (js ''{"sub":"b@x.com"}'')) @ js ''.'' @ js ''sig'')
   = Inr (claim_of (Str (js ''b@x.com'')))\<close>
proof -
  have h: "0x2E \<notin> set (js ''x'')" by (simp add: js_def)
  have s: \<open>JSON_stringify (claim_of (Str (js ''b@x.com''))) = Some (js ''{"sub":"b@x.com"}'')\<close>
    by (simp add: JSON_stringify_def claim_of_def js_def quote_def is_high_def is_low_def)
  show ?thesis
    by (rule verifyToken_returns_altered_claim [OF h s])
qed

text \<open>
  C2. For every session claim \<open>{sub: email}\<close>, \<open>email\<close> any string, \<open>createToken\<close>
  returns a token, and \<open>verifyToken\<close> of this token returns the claim.
\<close>

theorem verify_issue_roundtrip:
  "\<exists>token. createToken (claim_of (Str email)) = Inr token
           \<and> verifyToken token = Inr (claim_of (Str email))"
proof -
  let ?text = \<open>js ''{"sub":'' @ quote email @ js ''}''\<close>
  let ?token = "jwt_header64 @ [0x2E] @ b64_encode (utf8_encode ?text) @ [0x2E]"
  have "verifyToken_try ?token = JSON_parse (utf8_decode (utf8_encode ?text))"
    using verifyToken_try_issued [OF jwt_header64_no_dot, of "utf8_encode ?text" "[]"]
    by simp
  also have "\<dots> = Inr (claim_of (Str email))"
    by (simp only: utf8_decode_encode [OF wf16_claim_text] JSON_parse_claim)
  finally have "verifyToken ?token = Inr (claim_of (Str email))"
    by (rule verifyToken_eq)
  then show ?thesis
    by (simp only: createToken_claim) blast
qed

theorem verify_issue_roundtrip_witness:
  "\<exists>token. createToken (claim_of (Str (js ''ann@x.com''))) = Inr token
           \<and> verifyToken token = Inr (claim_of (Str (js ''ann@x.com'')))"
  by (rule verify_issue_roundtrip)

text \<open>
  C3, as stated, does not hold. A token of two segments whose payload is the JSON text
  \<open>{}\<close> is accepted: \<open>verifyToken\<close> returns the empty object, which has no subject.
  So is a token of five segments.
\<close>

theorem malformed_token_accepted:
  "length (split 0x2E (js ''x.e30='')) = 2
   \<and> verifyToken (js ''x.e30='') = Inr (Obj [])
   \<and> get_prop (Obj []) (js ''sub'') = Inr Undefined
   \<and> verifyToken (js ''a.e30=.b.c.d'') = Inr (Obj [])"
  by (simp add: codec_eval)

text \<open>
  C3, amended. \<open>verifyToken\<close> returns \<open>null\<close> exactly when the token has no \<open>.\<close> (fewer
  than two segments), or its second segment, base64-decoded and read as UTF-8, is not
  JSON text or is the JSON text \<open>null\<close>. Otherwise it returns the JSON value of the second
  segment, whatever it is. It looks at nothing else: for every well-formed JSON text
  with value \<open>w\<close>, every first segment and every list of further segments, the token with
  the encoded text as its second segment verifies to \<open>w\<close>. So tokens of two, three, four
  or more segments are accepted alike, and the payload need not be an object or have a
  subject.
\<close>

theorem verifyToken_second_segment:
  "(verifyToken token = Inr Null \<longleftrightarrow>
      0x2E \<notin> set token
      \<or> (\<exists>e. JSON_parse (utf8_decode (b64_decode (split 0x2E token ! 1))) = Inl e)
      \<or> JSON_parse (utf8_decode (b64_decode (split 0x2E token ! 1))) = Inr Null)
   \<and> (0x2E \<in> set token
      \<and> JSON_parse (utf8_decode (b64_decode (split 0x2E token ! 1))) = Inr v
      \<longrightarrow> verifyToken token = Inr v)
   \<and> (0x2E \<notin> set header \<and> (\<forall>p \<in> set others. 0x2E \<notin> set p)
      \<and> wf16 text \<and> JSON_parse text = Inr w
      \<longrightarrow> length (split 0x2E (join [0x2E] (header # b64_encode (utf8_encode text) # others)))
            = 2 + length others
          \<and> verifyToken (join [0x2E] (header # b64_encode (utf8_encode text) # others)) = Inr w)"
proof (intro conjI impI)
  let ?d = "JSON_parse (utf8_decode (b64_decode (split 0x2E token ! 1)))"
  have vt: "verifyToken token =
      (if 0x2E \<notin> set token then Inr Null else case ?d of Inl e \<Rightarrow> Inr Null | Inr v \<Rightarrow> Inr v)"
    using split_single [of "0x2E" token]
    by (simp add: verifyToken_def verifyToken_try_def Let_def split: sum.splits)
  show "verifyToken token = Inr Null \<longleftrightarrow>
      0x2E \<notin> set token \<or> (\<exists>e. ?d = Inl e) \<or> ?d = Inr Null"
    by (cases ?d) (simp_all add: vt)
  show "verifyToken token = Inr v" if "0x2E \<in> set token \<and> ?d = Inr v"
    using that by (simp add: vt)
next
  let ?p = "b64_encode (utf8_encode text)"
  assume a: "0x2E \<notin> set header \<and> (\<forall>p \<in> set others. 0x2E \<notin> set p)
      \<and> wf16 text \<and> JSON_parse text = Inr w"
  then have "\<forall>p \<in> set (header # ?p # others). 0x2E \<notin> set p"
    by (simp add: b64_encode_no_dot)
  then have s: "split 0x2E (join [0x2E] (header # ?p # others)) = header # ?p # others"
    by (intro split_join) simp_all
  show "length (split 0x2E (join [0x2E] (header # ?p # others))) = 2 + length others"
    by (simp only: s) simp
  show "verifyToken (join [0x2E] (header # ?p # others)) = Inr w"
    using a by (simp add: verifyToken_def verifyToken_try_def Let_def s b64_decode_encode
        utf8_decode_encode del: join.simps)
qed

theorem verifyToken_second_segment_witness:
  "0x2E \<notin> set (js ''abc'') \<and> verifyToken (js ''abc'') = Inr Null
   \<and> 0x2E \<in> set (js ''a.!!!'') \<and> verifyToken (js ''a.!!!'') = Inr Null
   \<and> 0x2E \<in> set (js ''a.bnVsbA=='') \<and> verifyToken (js ''a.bnVsbA=='') = Inr Null
   \<and> JSON_parse (utf8_decode (b64_decode (split 0x2E (js ''a.dHJ1ZQ.b.c'') ! 1))) = Inr (Bool True)
   \<and> verifyToken (js ''a.dHJ1ZQ.b.c'') = Inr (Bool True)
   \<and> wf16 (js ''[true]'') \<and> JSON_parse (js ''[true]'') = Inr (Arr [Bool True])
   \<and> length (split 0x2E (join [0x2E]
        [js ''x'', b64_encode (utf8_encode (js ''[true]'')), js ''y'', js ''z''])) = 4
   \<and> verifyToken (join [0x2E]
        [js ''x'', b64_encode (utf8_encode (js ''[true]'')), js ''y'', js ''z'']) = Inr (Arr [Bool True])
   \<and> verifyToken (join [0x2E] [js ''x'', b64_encode (utf8_encode (js ''[true]''))])
       = Inr (Arr [Bool True])"
proof -
  have d: "0x2E \<notin> set (js ''abc'')" "0x2E \<in> set (js ''a.!!!'')" "0x2E \<in> set (js ''a.bnVsbA=='')"
    "0x2E \<in> set (js ''a.dHJ1ZQ.b.c'')" "0x2E \<notin> set (js ''x'')"
    "\<forall>p \<in> set [js ''y'', js ''z'']. 0x2E \<notin> set p" "\<forall>p \<in> set ([] :: jsstring list). 0x2E \<notin> set p"
    by (simp_all add: js_def)
  have p1: "JSON_parse (utf8_decode (b64_decode (split 0x2E (js ''a.!!!'') ! 1))) = Inl SyntaxError"
    by (simp add: codec_eval)
  have p2: "JSON_parse (utf8_decode (b64_decode (split 0x2E (js ''a.bnVsbA=='') ! 1))) = Inr Null"
    by (simp add: codec_eval)
  have p3: "JSON_parse (utf8_decode (b64_decode (split 0x2E (js ''a.dHJ1ZQ.b.c'') ! 1))) = Inr (Bool True)"
    by (simp add: codec_eval)
  have t: "wf16 (js ''[true]'')" "JSON_parse (js ''[true]'') = Inr (Arr [Bool True])"
    by (simp_all add: codec_eval is_high_def is_low_def)
  note T = verifyToken_second_segment
  from T [of "js ''abc''"] d(1) have r0: "verifyToken (js ''abc'') = Inr Null" by blast
  from T [of "js ''a.!!!''"] p1 have r1: "verifyToken (js ''a.!!!'') = Inr Null" by blast
  from T [of "js ''a.bnVsbA==''"] p2 have r2: "verifyToken (js ''a.bnVsbA=='') = Inr Null" by blast
  from T [of "js ''a.dHJ1ZQ.b.c''" "Bool True"] d(4) p3
  have r3: "verifyToken (js ''a.dHJ1ZQ.b.c'') = Inr (Bool True)" by blast
  from T [of _ _ "js ''x''" "[js ''y'', js ''z'']" "js ''[true]''" "Arr [Bool True]"] d(5,6) t
  have r4: "length (split 0x2E (join [0x2E]
        [js ''x'', b64_encode (utf8_encode (js ''[true]'')), js ''y'', js ''z''])) = 4
   \<and> verifyToken (join [0x2E]
        [js ''x'', b64_encode (utf8_encode (js ''[true]'')), js ''y'', js ''z'']) = Inr (Arr [Bool True])"
    by simp
  from T [of _ _ "js ''x''" "[]" "js ''[true]''" "Arr [Bool True]"] d(5,7) t
  have r5: "verifyToken (join [0x2E] [js ''x'', b64_encode (utf8_encode (js ''[true]''))])
       = Inr (Arr [Bool True])"
    by simp
  show ?thesis using d(1,2,3) p3 r0 r1 r2 r3 t r4 r5 by blast
qed

text \<open>
  C4. For every input string \<open>verifyToken\<close> returns: it never throws. What it returns
  is the value its \<open>try\<close> block computed, or \<open>null\<close> (also when the block threw).
\<close>

theorem verifyToken_never_throws:
  "\<exists>v. verifyToken token = Inr v \<and> (v = Null \<or> verifyToken_try token = Inr v)"
  by (cases "verifyToken_try token") (simp_all add: verifyToken_def)

theorem verifyToken_never_throws_witness:
  "\<exists>v. verifyToken (js ''abc'') = Inr v \<and> (v = Null \<or> verifyToken_try (js ''abc'') = Inr v)"
  by (rule verifyToken_never_throws)

section \<open>Properties of the user store\<close>

text \<open>
  C8. When the database file does not exist, \<open>readUsers\<close> returns the empty array and
  does not throw.
\<close>

theorem readUsers_absent:
  "files DB_FILE = None \<Longrightarrow> readUsers files = Inr (Arr [])"
  by (simp add: readUsers_def existsSync_def)

theorem readUsers_absent_witness:
  "readUsers Map.empty = Inr (Arr [])"
  using readUsers_absent [of Map.empty] by simp

text \<open>
  C9. Reading the store right after saving a sequence of user records returns the
  sequence that was saved. A record is \<open>stored r\<close>: each of its three fields is a string
  or absent; with all three present it is \<open>{name, email, password}\<close>.
\<close>

theorem save_read_roundtrip:
  "\<exists>files'. saveUsers (Arr (map stored rs)) files = Inr files'
            \<and> readUsers files' = Inr (Arr (map stored rs))"
proof -
  have "list_all2 writes_as (map stored rs) rs"
    by (simp add: list_all2_map1 list_all2_refl writes_as_def serialize_stored)
  then show ?thesis
    using save_then_read [of "map stored rs" rs files] by simp
qed

theorem save_read_roundtrip_witness:
  "\<exists>files'. saveUsers (Arr (map stored [ann, bob])) Map.empty = Inr files'
            \<and> readUsers files' = Inr (Arr (map stored [ann, bob]))"
  by (rule save_read_roundtrip)

section \<open>Properties of the routes\<close>

text \<open>
  C5, as stated, does not hold. With the store holding one user with the email
  \<open>a@x.com\<close>, registering the email \<open>A@X.com\<close> with a leading blank, which has the same
  normal form, is not answered with the redirect to \<open>/register\<close>: in both variants the
  store then holds two records of that normal form.
\<close>

theorem same_normalized_email_twice:
  "fst (register_http ann_form Map.empty) = ann_store
   \<and> spec_normalize (js '' A@X.com'') = spec_normalize (js ''a@x.com'')
   \<and> readUsers (fst (register_http bob_form ann_store)) = Inr (Arr [stored ann, stored bob])
   \<and> snd (register_http bob_form ann_store) \<noteq> Inr (redirect_http (js ''/register''))
   \<and> readUsers (fst (register_express bob_form ann_store)) = Inr (Arr [stored ann, stored bob])
   \<and> snd (register_express bob_form ann_store) \<noteq> Inr [Redirect (js ''/register'')]"
proof -
  obtain token where t: "createToken (claim_of (opt_val (email_of bob))) = Inr token"
    using createToken_total by blast
  have free: "email_of bob \<notin> set (map email_of [ann])"
    by (simp add: example_emails js_def)
  have n: "spec_normalize (js '' A@X.com'') = spec_normalize (js ''a@x.com'')"
    by (simp add: spec_normalize_def spec_lower_def trim_def is_js_space_def js_def)
  have r: "readUsers (ann_store(DB_FILE \<mapsto> store_file ([ann] @ [bob])))
           = Inr (Arr [stored ann, stored bob])"
    using readUsers_write [of ann_store "[ann, bob]"] by simp
  show ?thesis
    using register_new [OF ann_store_holds example_submits(2) free t] n r
    by (simp add: ann_store_registered login_cookie_http_def redirect_http_def)
qed

text \<open>
  C5, amended. Emails are compared exactly, with no normal form. From a store that
  holds user records with pairwise different emails, every sequence of requests whose
  forms have string fields leaves such a store, in both variants; and registering an
  email that a stored record already has is answered with the redirect to \<open>/register\<close>
  and leaves the files as they are.
\<close>

theorem store_invariant_exact_email:
  assumes "store_inv files"
    and "list_all (\<lambda>req. form (req_body req)) reqs"
    and "list_all express_form ereqs"
  shows "store_inv (run_http reqs files) \<and> store_inv (run_express ereqs files)
    \<and> (\<forall>rs body r. holds files rs \<and> submits body r \<and> email_of r \<in> set (map email_of rs) \<longrightarrow>
          register_http body files = (files, Inr (redirect_http (js ''/register'')))
          \<and> register_express body files = (files, Inr [Redirect (js ''/register'')]))"
  using assms
  by (auto simp: run_http_keeps_inv run_express_keeps_inv register_taken
      simp del: split_paired_All split_paired_Ex)

theorem store_invariant_exact_email_witness:
  "store_inv ann_store
   \<and> store_inv (run_http [\<lparr>req_method = js ''POST'', req_url = js ''/register'',
                            req_cookie = None, req_body = bob_form\<rparr>] ann_store)
   \<and> store_inv (run_express [PostRegister bob_form] ann_store)
   \<and> register_http ann_form ann_store = (ann_store, Inr (redirect_http (js ''/register'')))
   \<and> register_express ann_form ann_store = (ann_store, Inr [Redirect (js ''/register'')])"
proof -
  have i: "store_inv ann_store"
    unfolding store_inv_def using ann_store_holds by (intro exI [of _ "[ann]"]) simp
  have f: "form bob_form"
    unfolding form_def using example_submits(2) by blast
  have l: "list_all (\<lambda>req. form (req_body req))
             [\<lparr>req_method = js ''POST'', req_url = js ''/register'',
               req_cookie = None, req_body = bob_form\<rparr>]"
    using f by simp
  have e: "list_all express_form [PostRegister bob_form]"
    using f by simp
  have taken: "email_of ann \<in> set (map email_of [ann])" by simp
  note T = store_invariant_exact_email [OF i l e]
  have "register_http ann_form ann_store = (ann_store, Inr (redirect_http (js ''/register'')))
        \<and> register_express ann_form ann_store = (ann_store, Inr [Redirect (js ''/register'')])"
    using T ann_store_holds example_submits(1) taken by blast
  then show ?thesis
    using i T by blast
qed

text \<open>
  C6. When no stored record has both the email and the password of the form, \<open>POST
  /login\<close> answers with the redirect to \<open>/\<close> and nothing else: no cookie is set, and the
  files are as before. This holds in both variants.
\<close>

theorem login_failure_redirects:
  assumes "holds files rs" and "submits body r"
    and "\<not> (\<exists>u\<in>set rs. email_of u = email_of r \<and> password_of u = password_of r)"
  shows "login_http body files
           = (files, Inr \<lparr>status = 302, headers = [(js ''Location'', js ''/'')], content = None\<rparr>)
         \<and> login_express body files = (files, Inr [Redirect (js ''/'')])"
  using login_fails [OF assms] by (simp add: redirect_http_def)

theorem login_failure_redirects_witness:
  "login_http wrong_form ann_store
     = (ann_store, Inr \<lparr>status = 302, headers = [(js ''Location'', js ''/'')], content = None\<rparr>)
   \<and> login_express wrong_form ann_store = (ann_store, Inr [Redirect (js ''/'')])"
proof -
  have "\<not> (\<exists>u\<in>set [ann]. email_of u = email_of wrong \<and> password_of u = password_of wrong)"
    by (simp add: example_emails js_def)
  then show ?thesis
    by (rule login_failure_redirects [OF ann_store_holds example_submits(3)])
qed

text \<open>
  C10. When no stored record has the email of the form, registration appends: the store
  afterwards holds the records it held, in their order, and then the record of the form.
  No other file changes. This holds in both variants.
\<close>

theorem registration_appends:
  assumes "holds files rs" and "submits body r" and "email_of r \<notin> set (map email_of rs)"
  shows "readUsers (fst (register_http body files)) = Inr (Arr (map stored rs @ [stored r]))
       \<and> readUsers (fst (register_express body files)) = Inr (Arr (map stored rs @ [stored r]))
       \<and> (\<forall>path. path \<noteq> DB_FILE \<longrightarrow>
            fst (register_http body files) path = files path
            \<and> fst (register_express body files) path = files path)"
proof -
  obtain token where t: "createToken (claim_of (opt_val (email_of r))) = Inr token"
    using createToken_total by blast
  show ?thesis
    using readUsers_write [of files "rs @ [r]"]
    by (simp add: register_new [OF assms t])
qed

theorem registration_appends_witness:
  "readUsers (fst (register_http bob_form ann_store)) = Inr (Arr (map stored [ann] @ [stored bob]))
   \<and> readUsers (fst (register_express bob_form ann_store))
       = Inr (Arr (map stored [ann] @ [stored bob]))
   \<and> fst (register_http bob_form ann_store) (js ''other.txt'') = ann_store (js ''other.txt'')
   \<and> fst (register_express bob_form ann_store) (js ''other.txt'') = ann_store (js ''other.txt'')"
proof -
  have free: "email_of bob \<notin> set (map email_of [ann])"
    by (simp add: example_emails js_def)
  have d: "js ''other.txt'' \<noteq> DB_FILE"
    by (simp add: DB_FILE_def js_def)
  show ?thesis
    using registration_appends [OF ann_store_holds example_submits(2) free] d by blast
qed

text \<open>
  C7. The two variants do not answer every request alike. Take a store that holds a user
  and the token that \<open>createToken\<close> issues for this user's email, sent back as the cookie
  \<open>access_token\<close>. The raw-HTTP variant reads the cookie with \<open>parseCookies\<close>, which
  keeps what stands between the first and the second \<open>=\<close>: the header segment without
  its padding. \<open>verifyToken\<close> returns \<open>null\<close> for it, and \<open>GET /profile\<close> redirects to
  \<open>/\<close>. The Express variant, given the whole cookie value, sends the profile page.
\<close>

theorem profile_after_login_differs:
  assumes "holds files rs" and "u \<in> set rs" and "email_of u = Some e"
    and "createToken (claim_of (Str e)) = Inr token"
  shows "profile_http (Some (js ''access_token='' @ token)) files
           = (files, Inr (redirect_http (js ''/'')))
       \<and> (\<exists>v. profile_express [js ''access_token'' \<mapsto> token] files
                 = (files, Inr [Send (ProfilePage v)]))"
proof -
  obtain bs where "token = jwt_header64 @ [0x2E] @ b64_encode bs @ [0x2E]"
    using createToken_shape [OF assms(4)] by blast
  then show ?thesis
    using profile_http_issued profile_express_issued [OF assms] by simp
qed

theorem profile_after_login_differs_witness:
  "profile_http
     (Some (js ''access_token=''
            @ js ''eyJhbGciOiJub25lIiwidHlwIjoiSldUIn0=.eyJzdWIiOiJhQHguY29tIn0=.'')) ann_store
     = (ann_store, Inr (redirect_http (js ''/'')))
   \<and> (\<exists>v. profile_express
             [js ''access_token''
                \<mapsto> js ''eyJhbGciOiJub25lIiwidHlwIjoiSldUIn0=.eyJzdWIiOiJhQHguY29tIn0=.'']
             ann_store
           = (ann_store, Inr [Send (ProfilePage v)]))"
proof -
  have m: "ann \<in> set [ann]" by simp
  show ?thesis
    by (rule profile_after_login_differs [OF ann_store_holds m example_emails(1) createToken_ann])
qed

end
